theory Spec2Isabelle
  imports Main "HOL-Library.Word"
begin

section \<open>Buffers and numbers\<close>

text \<open>
  A \<^verbatim>\<open>Buffer\<close> is a list of bytes. A JavaScript number is an IEEE-754 binary64 value; it
  is represented by its 64-bit pattern, which is what \<^verbatim>\<open>writeDoubleBE\<close> stores (most
  significant byte first) and \<^verbatim>\<open>readDoubleBE\<close> loads. The bit pattern is finer than the
  value where JavaScript cannot tell two patterns apart (the NaNs); equal patterns are
  equal values, which is what the round trips below need. The methods of \<^verbatim>\<open>Buffer\<close> are
  those of the platform (Node.js), modelled as its documentation and sources have them.
\<close>

type_synonym byte = "8 word"
type_synonym buffer = "byte list"
type_synonym number = "64 word"

datatype error =
    RangeError
  | DataTypeNotExist byte
  | SyntaxError
  | NotSerialized
  | NotArrayOrBuffer
  | PayloadTooLarge
  | ConnectionAborted
  | WriteFailed nat
  | UserError nat

text \<open>The outcome of a computation that may throw.\<close>

datatype 'a result = Ok 'a | Throws error

definition bytes_of_nat :: "nat \<Rightarrow> buffer" where
  "bytes_of_nat m = map (\<lambda>i. of_nat (m div 256 ^ (7 - i))) [0..<8]"

definition nat_of_bytes :: "buffer \<Rightarrow> nat" where
  "nat_of_bytes bs = foldl (\<lambda>acc b. acc * 256 + unat b) 0 bs"

definition writeDoubleBE :: "number \<Rightarrow> buffer" where
  "writeDoubleBE x = bytes_of_nat (unat x)"

text \<open>
  \<^verbatim>\<open>readDoubleBE(offset)\<close> and \<^verbatim>\<open>readUInt8(offset)\<close> at an offset that is a whole
  number: a RangeError unless the bytes read lie within the buffer.
\<close>

definition readDoubleBE :: "buffer \<Rightarrow> nat \<Rightarrow> number result" where
  "readDoubleBE buf offset =
     (if offset + 8 \<le> length buf then Ok (of_nat (nat_of_bytes (take 8 (drop offset buf))))
      else Throws RangeError)"

definition readUInt8 :: "buffer \<Rightarrow> nat \<Rightarrow> byte result" where
  "readUInt8 buf offset = (if offset < length buf then Ok (buf ! offset) else Throws RangeError)"

text \<open>
  The sign, the biased exponent and the fraction of a double, and what they say of it: NaN
  (exponent 2047, fraction not 0), infinite (exponent 2047, fraction 0) or finite.
\<close>

definition sign_bit :: "number \<Rightarrow> nat" where
  "sign_bit x = unat x div 2 ^ 63"

definition exponent :: "number \<Rightarrow> nat" where
  "exponent x = (unat x div 2 ^ 52) mod 2048"

definition fraction :: "number \<Rightarrow> nat" where
  "fraction x = unat x mod 2 ^ 52"

definition is_NaN :: "number \<Rightarrow> bool" where
  "is_NaN x = (let m = unat x in (m div 2 ^ 52) mod 2048 = 2047 \<and> m mod 2 ^ 52 \<noteq> 0)"

definition is_finite :: "number \<Rightarrow> bool" where
  "is_finite x \<longleftrightarrow> exponent x \<noteq> 2047"

text \<open>
  The value of a finite double, times \<open>2 ^ 1074\<close>: every finite double is a whole multiple
  of \<open>2 ^ -1074\<close>, the smallest positive one, so this is an integer and arithmetic on it is
  exact.
\<close>

definition scaled :: "number \<Rightarrow> int" where
  "scaled x =
     (let e = exponent x; f = fraction x;
          v = (if e = 0 then int f else int ((2 ^ 52 + f) * 2 ^ (e - 1)))
      in if sign_bit x = 1 then - v else v)"

fun log2 :: "nat \<Rightarrow> nat" where
  "log2 n = (if n < 2 then 0 else Suc (log2 (n div 2)))"

declare log2.simps [simp del]

text \<open>
  The double nearest to \<open>v / 2 ^ 1074\<close>, a tie going to the even fraction, and a value
  beyond the largest finite double to an infinity: the rounding of every JavaScript
  operation. Of \<open>a = \<bar>v\<bar>\<close> the 53 leading bits \<open>q\<close> are kept, \<open>k\<close> bits \<open>r\<close> are cut off; the
  bit pattern of the result is \<open>k * 2 ^ 52 + q\<close>, where a carry out of the fraction falls
  into the exponent.
\<close>

definition round_scaled :: "int \<Rightarrow> number" where
  "round_scaled v =
     (let a = nat \<bar>v\<bar>;
          s = (if v < 0 then 2 ^ 63 else 0);
          k = log2 a - 52;
          q = a div 2 ^ k;
          r = a mod 2 ^ k;
          q = (if 2 ^ k < 2 * r \<or> (2 * r = 2 ^ k \<and> odd q) then q + 1 else q);
          bits = k * 2 ^ 52 + q
      in of_nat (s + (if 2047 * 2 ^ 52 \<le> bits then 2047 * 2 ^ 52 else bits)))"

text \<open>
  \<^verbatim>\<open>n + x\<close> and \<^verbatim>\<open>x < n\<close> for a whole number \<open>n\<close> (an index or a length) and any
  number \<open>x\<close>: the sum with NaN is NaN and with an infinity that infinity; NaN is less than
  nothing, and of the infinities the negative one is less than \<open>n\<close>.
\<close>

definition js_add :: "nat \<Rightarrow> number \<Rightarrow> number" where
  "js_add n x = (if is_finite x then round_scaled (int n * 2 ^ 1074 + scaled x) else x)"

definition js_less :: "number \<Rightarrow> nat \<Rightarrow> bool" where
  "js_less x n =
     (if is_finite x then scaled x < int n * 2 ^ 1074
      else \<not> is_NaN x \<and> sign_bit x = 1)"

text \<open>\<^verbatim>\<open>Math.trunc\<close> of a finite number.\<close>

definition trunc :: "number \<Rightarrow> int" where
  "trunc x = (let t = \<bar>scaled x\<bar> div 2 ^ 1074 in if scaled x < 0 then - t else t)"

text \<open>
  \<^verbatim>\<open>Buffer.prototype.slice(start, end)\<close> never throws. Each bound goes through
  \<^verbatim>\<open>adjustOffset(offset, length)\<close>: it is truncated, NaN counts as 0, a negative bound
  counts from the end of the buffer, and the result is kept within \<open>0\<close> and \<open>length\<close>. The
  slice is empty when the end is not after the start. \<open>slice'\<close> is the slice between
  bounds that are whole numbers, \<open>slice_to\<close> the call \<^verbatim>\<open>slice(start, end)\<close> with whole
  \<^verbatim>\<open>start\<close>, and \<open>slice_from\<close> the call \<^verbatim>\<open>slice(start)\<close>.
\<close>

definition adjustOffset :: "number \<Rightarrow> nat \<Rightarrow> nat" where
  "adjustOffset offset length' =
     (if is_NaN offset then 0
      else if \<not> is_finite offset then (if sign_bit offset = 1 then 0 else length')
      else let offset = trunc offset in
           if offset = 0 then 0
           else if offset < 0 then
             (let offset = offset + int length' in if 0 < offset then nat offset else 0)
           else if offset < int length' then nat offset else length')"

definition slice' :: "buffer \<Rightarrow> nat \<Rightarrow> nat \<Rightarrow> buffer" where
  "slice' buf start end' = take (end' - start) (drop start buf)"

definition slice_to :: "buffer \<Rightarrow> nat \<Rightarrow> number \<Rightarrow> buffer" where
  "slice_to buf start end' = slice' buf start (adjustOffset end' (length buf))"

definition slice_from :: "buffer \<Rightarrow> number \<Rightarrow> buffer" where
  "slice_from buf start = slice' buf (adjustOffset start (length buf)) (length buf)"

text \<open>
  The double that holds a natural number: sign 0, biased exponent \<open>log2 n + 1023\<close> in bits
  62..52, and the fraction bits below. Exact for \<open>n < 2 ^ 53\<close>, which covers every buffer
  length and message id; above, the fraction is cut off.
\<close>

definition double_of_nat :: "nat \<Rightarrow> number" where
  "double_of_nat n =
     (if n = 0 then 0
      else let e = log2 n
           in of_nat ((e + 1023) * 2 ^ 52 + ((n - 2 ^ e) * 2 ^ 52) div 2 ^ e))"

text \<open>
  The natural number a double holds, if it holds one: \<open>None\<close> for negative numbers,
  fractions, infinities and NaN. Both zeros count as 0.
\<close>

definition to_index :: "number \<Rightarrow> nat option" where
  "to_index x =
     (let m = unat x; s = m div 2 ^ 63; e = (m div 2 ^ 52) mod 2048; f = m mod 2 ^ 52
      in if e = 0 \<and> f = 0 then Some 0
         else if s = 1 \<or> e = 2047 \<or> e < 1023 then None
         else if 1075 \<le> e then Some ((2 ^ 52 + f) * 2 ^ (e - 1075))
         else if (2 ^ 52 + f) mod 2 ^ (1075 - e) = 0 then Some ((2 ^ 52 + f) div 2 ^ (1075 - e))
         else None)"


section \<open>Strings\<close>

text \<open>
  A JavaScript string is a sequence of UTF-16 code units. \<^verbatim>\<open>Buffer.from(string)\<close> encodes
  it in UTF-8: a high surrogate followed by a low one is one code point above FFFF, any
  other surrogate is written as U+FFFD (the bytes EF BF BD), and every other code unit is
  its own code point.
\<close>

type_synonym jsstring = "16 word list"

text \<open>The string of the characters of an ASCII literal.\<close>

definition ascii :: "string \<Rightarrow> jsstring" where
  "ascii s = map (\<lambda>c. of_nat (of_char c)) s"

definition high_surrogate :: "16 word \<Rightarrow> bool" where
  "high_surrogate u \<longleftrightarrow> 0xD800 \<le> unat u \<and> unat u \<le> 0xDBFF"

definition low_surrogate :: "16 word \<Rightarrow> bool" where
  "low_surrogate u \<longleftrightarrow> 0xDC00 \<le> unat u \<and> unat u \<le> 0xDFFF"

definition utf8 :: "nat \<Rightarrow> buffer" where
  "utf8 c =
     (if c < 0x80 then [of_nat c]
      else if c < 0x800 then [of_nat (0xC0 + c div 64), of_nat (0x80 + c mod 64)]
      else if c < 0x10000 then
        [of_nat (0xE0 + c div 4096), of_nat (0x80 + c div 64 mod 64), of_nat (0x80 + c mod 64)]
      else
        [of_nat (0xF0 + c div 262144), of_nat (0x80 + c div 4096 mod 64),
         of_nat (0x80 + c div 64 mod 64), of_nat (0x80 + c mod 64)])"

fun Buffer_from :: "jsstring \<Rightarrow> buffer" where
  "Buffer_from [] = []"
| "Buffer_from [u] =
     (if high_surrogate u \<or> low_surrogate u then utf8 0xFFFD else utf8 (unat u))"
| "Buffer_from (u # v # s) =
     (if high_surrogate u \<and> low_surrogate v then
        utf8 (0x10000 + (unat u - 0xD800) * 0x400 + (unat v - 0xDC00)) @ Buffer_from s
      else if high_surrogate u \<or> low_surrogate u then utf8 0xFFFD @ Buffer_from (v # s)
      else utf8 (unat u) @ Buffer_from (v # s))"

text \<open>
  \<^verbatim>\<open>buffer.toString()\<close> decodes UTF-8 as the Encoding Standard lays down: the decoder
  keeps the code point under way, the number of bytes it still needs and the bounds of the
  next byte; a byte that cannot begin or continue a sequence gives U+FFFD, and a byte that
  breaks a sequence off is then read again as the first byte of the next one; a sequence
  cut off by the end of the buffer gives one U+FFFD. A code point above FFFF becomes a
  pair of surrogates.
\<close>

definition code_units :: "nat \<Rightarrow> jsstring" where
  "code_units c =
     (if c < 0x10000 then [of_nat c]
      else [of_nat (0xD800 + (c - 0x10000) div 0x400), of_nat (0xDC00 + (c - 0x10000) mod 0x400)])"

type_synonym utf8_state = "nat \<times> nat \<times> nat \<times> nat"

definition utf8_lead :: "byte \<Rightarrow> jsstring \<times> utf8_state" where
  "utf8_lead b =
     (let n = unat b in
      if n < 0x80 then ([of_nat n], (0, 0, 0x80, 0xBF))
      else if 0xC2 \<le> n \<and> n \<le> 0xDF then ([], (n mod 32, 1, 0x80, 0xBF))
      else if 0xE0 \<le> n \<and> n \<le> 0xEF then
        ([], (n mod 16, 2, if n = 0xE0 then 0xA0 else 0x80, if n = 0xED then 0x9F else 0xBF))
      else if 0xF0 \<le> n \<and> n \<le> 0xF4 then
        ([], (n mod 8, 3, if n = 0xF0 then 0x90 else 0x80, if n = 0xF4 then 0x8F else 0xBF))
      else ([0xFFFD], (0, 0, 0x80, 0xBF)))"

fun utf8_step :: "utf8_state \<Rightarrow> byte \<Rightarrow> jsstring \<times> utf8_state" where
  "utf8_step (c, needed, lower, upper) b =
     (if needed = 0 then utf8_lead b
      else if unat b < lower \<or> upper < unat b then
        (let (out, st) = utf8_lead b in (0xFFFD # out, st))
      else
        (let c = c * 64 + unat b mod 64 in
         if needed = 1 then (code_units c, (0, 0, 0x80, 0xBF))
         else ([], (c, needed - 1, 0x80, 0xBF))))"

fun utf8_decode :: "utf8_state \<Rightarrow> buffer \<Rightarrow> jsstring" where
  "utf8_decode (c, needed, lower, upper) [] = (if needed = 0 then [] else [0xFFFD])"
| "utf8_decode st (b # bs) = (let (out, st) = utf8_step st b in out @ utf8_decode st bs)"

definition toString :: "buffer \<Rightarrow> jsstring" where
  "toString buf = utf8_decode (0, 0, 0x80, 0xBF) buf"

text \<open>The strings in which every surrogate has its partner.\<close>

fun well_formed :: "jsstring \<Rightarrow> bool" where
  "well_formed [] = True"
| "well_formed [u] = (\<not> high_surrogate u \<and> \<not> low_surrogate u)"
| "well_formed (u # v # s) =
     (if high_surrogate u then low_surrogate v \<and> well_formed s
      else \<not> low_surrogate u \<and> well_formed (v # s))"


section \<open>The value codec: \<^verbatim>\<open>BaseSocket.serialize\<close> and \<^verbatim>\<open>BaseSocket.deserialize\<close>\<close>

text \<open>
  The elements of the array handed to \<^verbatim>\<open>serialize\<close>, by the branch of its
  \<^verbatim>\<open>switch (typeof item)\<close> that takes them. An object that is neither \<^verbatim>\<open>null\<close> nor a
  Buffer is represented by the text \<^verbatim>\<open>JSON.stringify\<close> gives for it.
\<close>

datatype jsvalue =
    Number number
  | String jsstring
  | Boolean bool
  | Undefined
  | Null
  | Buffer buffer
  | Object jsstring

fun serialize_item :: "jsvalue \<Rightarrow> buffer" where
  "serialize_item (Number item) = [0] @ writeDoubleBE item"
| "serialize_item (String item) =
     (let content = Buffer_from item;
          contentLength = writeDoubleBE (double_of_nat (length content))
      in [1] @ contentLength @ content)"
| "serialize_item (Boolean item) = [2] @ [if item then 1 else 0]"
| "serialize_item Undefined = [4]"
| "serialize_item Null = [3]"
| "serialize_item (Buffer item) =
     (let content = item;
          contentLength = writeDoubleBE (double_of_nat (length content))
      in [6] @ contentLength @ content)"
| "serialize_item (Object item) =
     (let content = Buffer_from item;
          contentLength = writeDoubleBE (double_of_nat (length content))
      in [5] @ contentLength @ content)"

definition serialize :: "jsvalue list \<Rightarrow> buffer" where
  "serialize data = concat (map serialize_item data)"

definition and_then :: "'a result \<Rightarrow> ('a \<Rightarrow> 'b result) \<Rightarrow> 'b result" where
  "and_then r f = (case r of Ok x \<Rightarrow> f x | Throws e \<Rightarrow> Throws e)"

text \<open>
  The variable \<^verbatim>\<open>previous\<close> of \<^verbatim>\<open>deserialize\<close>. It holds a whole number, kept as such,
  until \<^verbatim>\<open>previous += length\<close> adds to it a length field that any eight bytes can make:
  the sum is again a whole number, or it is one of the other numbers (a fraction, a negative
  number, an infinity, NaN), kept as it is.
\<close>

datatype position = Whole nat | NotWhole number

definition position_of :: "number \<Rightarrow> position" where
  "position_of x = (case to_index x of Some k \<Rightarrow> Whole k | None \<Rightarrow> NotWhole x)"

text \<open>
  The three statements shared by the string, Buffer and object branches:
  \<^verbatim>\<open>const length = data.readDoubleBE(previous); previous += 8;
  const content = data.slice(previous, previous += length);\<close>
  The result is the content and the new value of \<^verbatim>\<open>previous\<close>. The length is not checked
  against the buffer, nor is it checked to be a length at all.
\<close>

definition read_content :: "buffer \<Rightarrow> nat \<Rightarrow> (buffer \<times> position) result" where
  "read_content data previous =
     and_then (readDoubleBE data previous) (\<lambda>length'.
       let previous = previous + 8;
           end' = js_add previous length'
       in Ok (slice_to data previous end', position_of end'))"

text \<open>
  The body of the \<^verbatim>\<open>while\<close> loop of \<^verbatim>\<open>deserialize\<close> after the loop test, at a whole
  \<^verbatim>\<open>previous\<close>: the element read there and the value of \<^verbatim>\<open>previous\<close> after it.
  \<open>JSON_parse\<close> is the platform's \<^verbatim>\<open>JSON.parse\<close>, \<open>None\<close> where it throws.
\<close>

definition decode_item ::
  "(jsstring \<Rightarrow> jsvalue option) \<Rightarrow> buffer \<Rightarrow> nat \<Rightarrow> (jsvalue \<times> position) result" where
  "decode_item JSON_parse data previous =
     and_then (readUInt8 data previous) (\<lambda>type.
       let previous = previous + 1 in
       if type = 0 then
         and_then (readDoubleBE data previous) (\<lambda>x. Ok (Number x, Whole (previous + 8)))
       else if type = 1 then
         and_then (read_content data previous) (\<lambda>(content, previous).
           Ok (String (toString content), previous))
       else if type = 2 then
         and_then (readUInt8 data previous) (\<lambda>content.
           Ok (Boolean (content = 1), Whole (previous + 1)))
       else if type = 4 then Ok (Undefined, Whole previous)
       else if type = 3 then Ok (Null, Whole previous)
       else if type = 6 then
         and_then (read_content data previous) (\<lambda>(content, previous).
           Ok (Buffer content, previous))
       else if type = 5 then
         and_then (read_content data previous) (\<lambda>(content, previous).
           case JSON_parse (toString content) of
             None \<Rightarrow> Throws SyntaxError
           | Some item \<Rightarrow> Ok (item, previous))
       else Throws (DataTypeNotExist type))"

text \<open>
  The loop \<^verbatim>\<open>while (previous < data.length)\<close>. Where \<^verbatim>\<open>previous\<close> is not a whole
  number and the test holds, \<^verbatim>\<open>data.readUInt8(previous++)\<close> throws a RangeError. A length
  field can be negative and set \<^verbatim>\<open>previous\<close> back, so the loop need not end: the result
  is \<open>None\<close> where \<^verbatim>\<open>deserialize\<close> does not return.
\<close>

partial_function (option) deserialize_loop ::
  "(jsstring \<Rightarrow> jsvalue option) \<Rightarrow> buffer \<Rightarrow> position \<Rightarrow> jsvalue list
     \<Rightarrow> jsvalue list result option" where
  "deserialize_loop JSON_parse data previous res =
     (case previous of
        Whole p \<Rightarrow>
          if p < length data then
            (case decode_item JSON_parse data p of
               Ok (item, previous') \<Rightarrow> deserialize_loop JSON_parse data previous' (res @ [item])
             | Throws e \<Rightarrow> Some (Throws e))
          else Some (Ok res)
      | NotWhole x \<Rightarrow>
          if js_less x (length data) then Some (Throws RangeError) else Some (Ok res))"

definition deserialize ::
  "(jsstring \<Rightarrow> jsvalue option) \<Rightarrow> buffer \<Rightarrow> jsvalue list result option" where
  "deserialize JSON_parse data = deserialize_loop JSON_parse data (Whole 0) []"


text \<open>
  The values the round trip of the codec is stated for: every variant but objects, which
  travel as JSON text, with strings in which every surrogate has its partner.
\<close>

fun binary_item :: "jsvalue \<Rightarrow> bool" where
  "binary_item (String item) = well_formed item"
| "binary_item (Object item) = False"
| "binary_item _ = True"

subsection \<open>Malformed buffers\<close>

text \<open>
  The length field of the element at \<open>p\<close>: the number in the 8 bytes after its tag, if the
  buffer has them.
\<close>

definition length_field :: "buffer \<Rightarrow> nat \<Rightarrow> number option" where
  "length_field buf p = (case readDoubleBE buf (p + 1) of Ok x \<Rightarrow> Some x | Throws e \<Rightarrow> None)"



text \<open>
  Where the element after the one at \<open>p\<close> starts, by the wire format: the tag, then 8
  bytes of number, or 1 byte of boolean, or nothing, or 8 bytes of length and as many bytes
  as the length says, where that is a whole number of bytes onward or backward.
\<close>

definition next_item :: "buffer \<Rightarrow> nat \<Rightarrow> nat option" where
  "next_item buf p =
     (if p < length buf then
        (let t = buf ! p in
           if t = 0 then Some (p + 9)
           else if t = 2 then Some (p + 2)
           else if t = 3 \<or> t = 4 then Some (p + 1)
           else if t = 1 \<or> t = 5 \<or> t = 6 then
             (case length_field buf p of None \<Rightarrow> None | Some x \<Rightarrow> to_index (js_add (p + 9) x))
           else None)
      else None)"

inductive item_start :: "buffer \<Rightarrow> nat \<Rightarrow> nat \<Rightarrow> bool" for buf :: buffer where
  here: "item_start buf p p"
| later: "next_item buf p = Some p' \<Longrightarrow> item_start buf p' q \<Longrightarrow> item_start buf p q"

code_pred item_start .

definition no_json :: "jsstring \<Rightarrow> jsvalue option" where
  "no_json text' = None"


text \<open>
  Two numbers that are no lengths: 1.5 (the bytes \<^verbatim>\<open>3F F8 00 00 00 00 00 00\<close>) and -9 (the
  bytes \<^verbatim>\<open>C0 22 00 00 00 00 00 00\<close>).
\<close>

definition one_and_a_half :: number where
  "one_and_a_half = 0x3FF8000000000000"

definition minus_nine :: number where
  "minus_nine = 0xC022000000000000"


section \<open>The header codec\<close>

text \<open>
  \<^verbatim>\<open>BaseSocket.js\<close> holds two versions of the class. The old one has the value codec
  above as static methods and lays the header out by hand; the canonical one takes the value
  codec from the package \<^verbatim>\<open>object2buffer\<close> and encodes the header with it. The functions
  of the package and \<^verbatim>\<open>JSON.parse\<close> are not part of the repository: they are parameters.
  The package's \<^verbatim>\<open>deserialize\<close> gives \<open>None\<close> where it does not return.
\<close>

datatype version = Old | Canonical

record library =
  JSON_parse :: "jsstring \<Rightarrow> jsvalue option"
  object2buffer_serialize :: "jsvalue list \<Rightarrow> buffer"
  object2buffer_deserialize :: "buffer \<Rightarrow> jsvalue list result option"

text \<open>
  The object \<^verbatim>\<open>_deserializeHeader\<close> returns. In the canonical version its first four
  fields are whatever elements the decoded array has. \<open>headerLength\<close> is the number the
  code stores, whole or not.
\<close>

record header =
  isInternal :: jsvalue
  messageName :: jsvalue
  needACK :: jsvalue
  messageID :: jsvalue
  headerLength :: number

text \<open>
  \<^verbatim>\<open>_serializeHeader\<close>. In the old version \<^verbatim>\<open>Buffer.concat(list, length)\<close> is given the
  sum of the lengths of the parts, so it neither cuts nor pads.
\<close>

definition serializeHeader :: "version \<Rightarrow> library \<Rightarrow> bool \<Rightarrow> jsstring \<Rightarrow> bool \<Rightarrow> number \<Rightarrow> buffer" where
  "serializeHeader ver lib' isInternal' messageName' needACK' messageID' =
     (case ver of
        Old \<Rightarrow>
          (let u_isInternal = [if isInternal' then 1 else 0];
               u_messageName = Buffer_from messageName';
               u_messageNameLength = writeDoubleBE (double_of_nat (length u_messageName));
               u_needACK = [if needACK' then 1 else 0];
               u_messageID = writeDoubleBE messageID';
               length' = 8 + length u_isInternal + length u_messageName
                           + length u_messageNameLength + length u_needACK + length u_messageID;
               u_headerLength = writeDoubleBE (double_of_nat length')
           in concat [u_headerLength, u_isInternal, u_messageNameLength, u_messageName,
                      u_needACK, u_messageID])
      | Canonical \<Rightarrow>
          (let header' = object2buffer_serialize lib'
                 [Boolean isInternal', Boolean needACK', Number messageID', String messageName'];
               headerLength' = writeDoubleBE (double_of_nat (length header'))
           in concat [headerLength', header']))"

definition nth_or_undefined :: "jsvalue list \<Rightarrow> nat \<Rightarrow> jsvalue" where
  "nth_or_undefined xs i = (if i < length xs then xs ! i else Undefined)"

text \<open>
  \<^verbatim>\<open>_deserializeHeader\<close>. In the old version \<^verbatim>\<open>index\<close> is 17 when the length of the
  name is added to it; \<^verbatim>\<open>data.readUInt8(index++)\<close> then throws a RangeError unless
  \<^verbatim>\<open>index\<close> is a whole number within the buffer. In the canonical version the end of the
  slice is \<^verbatim>\<open>headerLength + 8\<close> and the length returned \<^verbatim>\<open>8 + headerLength\<close>, the same
  number.
\<close>

definition deserializeHeader :: "version \<Rightarrow> library \<Rightarrow> buffer \<Rightarrow> header result option" where
  "deserializeHeader ver lib' data' =
     (case ver of
        Old \<Rightarrow>
          Some
           (and_then (readDoubleBE data' 0) (\<lambda>headerLength'.
            and_then (readUInt8 data' 8) (\<lambda>isInternal'.
            and_then (readDoubleBE data' 9) (\<lambda>messageNameLength.
              let index = js_add 17 messageNameLength;
                  messageName' = toString (slice_to data' 17 index)
              in case position_of index of
                   NotWhole x \<Rightarrow> Throws RangeError
                 | Whole index \<Rightarrow>
                     and_then (readUInt8 data' index) (\<lambda>needACK'.
                     and_then (readDoubleBE data' (index + 1)) (\<lambda>messageID'.
                       Ok \<lparr>isInternal = Boolean (isInternal' = 1),
                           messageName = String messageName',
                           needACK = Boolean (needACK' = 1),
                           messageID = Number messageID',
                           headerLength = headerLength'\<rparr>))))))
      | Canonical \<Rightarrow>
          (case readDoubleBE data' 0 of
             Throws e \<Rightarrow> Some (Throws e)
           | Ok headerLength' \<Rightarrow>
               (case object2buffer_deserialize lib' (slice_to data' 8 (js_add 8 headerLength')) of
                  None \<Rightarrow> None
                | Some (Throws e) \<Rightarrow> Some (Throws e)
                | Some (Ok header') \<Rightarrow>
                    Some (Ok \<lparr>isInternal = nth_or_undefined header' 0,
                              messageName = nth_or_undefined header' 3,
                              needACK = nth_or_undefined header' 1,
                              messageID = nth_or_undefined header' 2,
                              headerLength = js_add 8 headerLength'\<rparr>))))"

text \<open>
  A library for the examples: the package functions are the value codec of the old version
  (the spec has the canonical header encoded by the value codec), and \<^verbatim>\<open>JSON.parse\<close>
  rejects every text.
\<close>

definition own_codec :: library where
  "own_codec = \<lparr>JSON_parse = no_json, object2buffer_serialize = serialize,
                 object2buffer_deserialize = deserialize no_json\<rparr>"


section \<open>The send queue\<close>

text \<open>
  What JavaScript takes for true in \<^verbatim>\<open>if (header.needACK)\<close>.
\<close>

fun truthy :: "jsvalue \<Rightarrow> bool" where
  "truthy (Number x) = (\<not> (x = 0 \<or> x = 0x8000000000000000 \<or> is_NaN x))"
| "truthy (String s) = (s \<noteq> [])"
| "truthy (Boolean b) = b"
| "truthy Undefined = False"
| "truthy Null = False"
| "truthy (Buffer b) = True"
| "truthy (Object t) = True"

datatype promise = Pending | Resolved | Rejected error

text \<open>
  The \<^verbatim>\<open>data\<close> argument of \<^verbatim>\<open>send\<close>: an array, a Buffer with its \<^verbatim>\<open>_serialized\<close> mark,
  or anything else.
\<close>

datatype payload = Array "jsvalue list" | SerializedBuffer buffer bool | NeitherArrayNorBuffer

datatype body = Deserialized "jsvalue list" | Raw buffer

datatype emitted = ErrorEvent error | MessageEvent jsvalue body

text \<open>
  The object \<^verbatim>\<open>control\<close> that \<^verbatim>\<open>_send\<close> builds. Its three closures are the functions
  \<open>control_cancel\<close>, \<open>control_send\<close> and \<open>control_ack\<close> below; the variables of
  \<^verbatim>\<open>_send\<close> they capture are \<^verbatim>\<open>msgID\<close> (the property \<^verbatim>\<open>messageID\<close>), \<^verbatim>\<open>needACK\<close> and, in
  scope though not read by them, \<^verbatim>\<open>prior\<close>.
\<close>

record control =
  data :: buffer
  msgID :: nat
  sent :: bool
  captured_needACK :: bool
  captured_prior :: bool

text \<open>
  A socket. \<open>this_queue\<close> holds the keys of the Map \<^verbatim>\<open>_queue\<close> in insertion order; the
  value under key \<open>k\<close> is the control object \<open>controls k\<close>, which lives on after its key is
  deleted (closures keep it). \<open>promises k\<close> is the state of the promise \<^verbatim>\<open>_send\<close> returned
  with \<^verbatim>\<open>messageID\<close> \<open>k\<close>, and \<open>settled\<close> lists the promises in the order they were
  settled. \<open>sendData_calls\<close> lists the calls of \<^verbatim>\<open>_sendData\<close>, \<open>inflight\<close> those whose
  promise is pending. \<open>catches\<close> are the promises of the acknowledgements sent by
  \<^verbatim>\<open>_receiveData\<close>, whose rejection is emitted as an \<^verbatim>\<open>error\<close> event; \<open>emitted\<close> lists the
  \<^verbatim>\<open>error\<close> and \<^verbatim>\<open>message\<close> events.
\<close>

record socket =
  version :: version
  lib :: library
  this_messageID :: nat
  this_queue :: "nat list"
  this_needDeserialize :: bool
  this_maxPayload :: "nat option"
  controls :: "nat \<Rightarrow> control option"
  promises :: "nat \<Rightarrow> promise option"
  catches :: "nat list"
  sendData_calls :: "(nat \<times> buffer) list"
  inflight :: "nat list"
  settled :: "(nat \<times> promise) list"
  emitted :: "emitted list"

definition new_BaseSocket :: "version \<Rightarrow> library \<Rightarrow> bool option \<Rightarrow> nat option \<Rightarrow> socket" where
  "new_BaseSocket ver lib' needDeserialize maxPayload =
     \<lparr>version = ver, lib = lib', this_messageID = 0, this_queue = [],
      this_needDeserialize = (case needDeserialize of None \<Rightarrow> True | Some b \<Rightarrow> b),
      this_maxPayload =
        (case ver of
           Old \<Rightarrow> maxPayload
         | Canonical \<Rightarrow> (case maxPayload of None \<Rightarrow> Some (1024 * 1024 * 100) | Some m \<Rightarrow> Some m)),
      controls = (\<lambda>k. None), promises = (\<lambda>k. None), catches = [], sendData_calls = [],
      inflight = [], settled = [], emitted = []\<rparr>"

text \<open>
  \<^verbatim>\<open>resolve()\<close> and \<^verbatim>\<open>reject(err)\<close> of the promise \<open>k\<close>: a promise that is settled stays
  as it is.
\<close>

definition settle :: "socket \<Rightarrow> nat \<Rightarrow> promise \<Rightarrow> socket" where
  "settle st k outcome =
     (if promises st k = Some Pending then
        st\<lparr>promises := (promises st)(k \<mapsto> outcome),
           settled := settled st @ [(k, outcome)],
           emitted :=
             (case outcome of
                Rejected e \<Rightarrow> if k \<in> set (catches st) then emitted st @ [ErrorEvent e] else emitted st
              | _ \<Rightarrow> emitted st)\<rparr>
      else st)"

text \<open>\<^verbatim>\<open>err ? reject(err) : resolve()\<close>; \<open>None\<close> is an argument left out.\<close>

definition reject_or_resolve :: "socket \<Rightarrow> nat \<Rightarrow> error option \<Rightarrow> socket" where
  "reject_or_resolve st k err =
     (case err of Some e \<Rightarrow> settle st k (Rejected e) | None \<Rightarrow> settle st k Resolved)"

definition control_cancel :: "socket \<Rightarrow> nat \<Rightarrow> error option \<Rightarrow> bool \<times> socket" where
  "control_cancel st k err =
     (case controls st k of
        None \<Rightarrow> (False, st)
      | Some control \<Rightarrow>
          if sent control then (False, st)
          else (True, reject_or_resolve (st\<lparr>this_queue := removeAll k (this_queue st)\<rparr>) k err))"

definition control_send :: "socket \<Rightarrow> nat \<Rightarrow> socket" where
  "control_send st k =
     (case controls st k of
        None \<Rightarrow> st
      | Some control \<Rightarrow>
          if sent control then st
          else st\<lparr>controls := (controls st)(k \<mapsto> control\<lparr>sent := True\<rparr>),
                 sendData_calls := sendData_calls st @ [(k, data control)],
                 inflight := inflight st @ [k]\<rparr>)"

definition control_ack :: "socket \<Rightarrow> nat \<Rightarrow> error option \<Rightarrow> socket" where
  "control_ack st k err =
     (let isFirst = (case this_queue st of [] \<Rightarrow> False | first # others \<Rightarrow> first = k);
          st = st\<lparr>this_queue := removeAll k (this_queue st)\<rparr>;
          st = reject_or_resolve st k err
      in if isFirst \<and> 0 < length (this_queue st) then control_send st (hd (this_queue st))
         else st)"

definition make_sendingData :: "version \<Rightarrow> library \<Rightarrow> buffer \<Rightarrow> payload \<Rightarrow> error + buffer" where
  "make_sendingData ver lib' header' data' =
     (case ver of
        Old \<Rightarrow>
          (case data' of
             Array items \<Rightarrow> Inr (header' @ serialize items)
           | SerializedBuffer buf serialized \<Rightarrow>
               if serialized then Inr (header' @ buf) else Inl NotSerialized
           | NeitherArrayNorBuffer \<Rightarrow> Inl NotArrayOrBuffer)
      | Canonical \<Rightarrow>
          (case data' of
             Array items \<Rightarrow> Inr (header' @ object2buffer_serialize lib' items)
           | SerializedBuffer buf serialized \<Rightarrow> Inr (header' @ buf)
           | NeitherArrayNorBuffer \<Rightarrow> Inl NotArrayOrBuffer))"

text \<open>
  The size check of \<^verbatim>\<open>_send\<close>: \<^verbatim>\<open>this._maxPayload !== undefined && sendingData.length >
  this._maxPayload\<close> in the old version, \<^verbatim>\<open>sendingData.length >= this._maxPayload\<close> in the
  canonical one.
\<close>

definition exceeds_maxPayload :: "version \<Rightarrow> nat option \<Rightarrow> nat \<Rightarrow> bool" where
  "exceeds_maxPayload ver maxPayload n =
     (case ver of
        Old \<Rightarrow> (case maxPayload of None \<Rightarrow> False | Some m \<Rightarrow> m < n)
      | Canonical \<Rightarrow> (case maxPayload of None \<Rightarrow> False | Some m \<Rightarrow> m \<le> n))"

text \<open>\<^verbatim>\<open>this._queue.set(msgID, control)\<close>: a new key goes last, a known key keeps its place.\<close>

definition queue_set :: "nat list \<Rightarrow> nat \<Rightarrow> nat list" where
  "queue_set q k = (if k \<in> set q then q else q @ [k])"

text \<open>
  \<^verbatim>\<open>_send\<close>: the \<^verbatim>\<open>messageID\<close> of the promise it returns, and the socket afterwards. An
  exception thrown in the executor of the promise rejects the promise.
\<close>

definition send' :: "socket \<Rightarrow> bool \<Rightarrow> bool \<Rightarrow> jsstring \<Rightarrow> bool \<Rightarrow> payload \<Rightarrow> nat \<times> socket" where
  "send' st isInternal' prior messageName' needACK' data' =
     (let msgID' = this_messageID st;
          st = st\<lparr>this_messageID := msgID' + 1, promises := (promises st)(msgID' \<mapsto> Pending)\<rparr>;
          header' = serializeHeader (version st) (lib st) isInternal' messageName' needACK'
                      (double_of_nat msgID')
      in (msgID',
          case make_sendingData (version st) (lib st) header' data' of
            Inl e \<Rightarrow> settle st msgID' (Rejected e)
          | Inr sendingData \<Rightarrow>
              if exceeds_maxPayload (version st) (this_maxPayload st) (length sendingData)
              then settle st msgID' (Rejected PayloadTooLarge)
              else
                let control = \<lparr>data = sendingData, msgID = msgID', sent = False,
                               captured_needACK = needACK', captured_prior = prior\<rparr>;
                    st = st\<lparr>controls := (controls st)(msgID' \<mapsto> control),
                            this_queue := queue_set (this_queue st) msgID'\<rparr>
                in if prior \<or> length (this_queue st) = 1 then control_send st msgID' else st))"

definition send :: "socket \<Rightarrow> jsstring \<Rightarrow> payload \<Rightarrow> bool \<Rightarrow> bool \<Rightarrow> nat \<times> socket" where
  "send st messageName' data' needACK' prior = send' st False prior messageName' needACK' data'"

definition sendInternal :: "socket \<Rightarrow> jsstring \<Rightarrow> payload \<Rightarrow> bool \<Rightarrow> bool \<Rightarrow> nat \<times> socket" where
  "sendInternal st messageName' data' needACK' prior =
     send' st True prior messageName' needACK' data'"

text \<open>
  The promise of \<^verbatim>\<open>_sendData\<close> for the control \<open>k\<close> settles, \<open>None\<close> for success. With
  \<^verbatim>\<open>needACK\<close> the handlers are \<^verbatim>\<open>.catch(control.ack)\<close>, without it
  \<^verbatim>\<open>.then(control.ack).catch(control.ack)\<close>.
\<close>

definition sendData_settled :: "socket \<Rightarrow> nat \<Rightarrow> error option \<Rightarrow> socket" where
  "sendData_settled st k r =
     (if k \<in> set (inflight st) then
        (let st = st\<lparr>inflight := removeAll k (inflight st)\<rparr> in
         case controls st k of
           None \<Rightarrow> st
         | Some control \<Rightarrow>
             if captured_needACK control then
               (case r of None \<Rightarrow> st | Some e \<Rightarrow> control_ack st k (Some e))
             else control_ack st k r)
      else st)"

definition emit :: "socket \<Rightarrow> emitted \<Rightarrow> socket" where
  "emit st ev = st\<lparr>emitted := emitted st @ [ev]\<rparr>"

text \<open>\<^verbatim>\<open>.catch(err => this.emit('error', err))\<close> on the promise \<open>k\<close>.\<close>

definition catch_emit_error :: "socket \<Rightarrow> nat \<Rightarrow> socket" where
  "catch_emit_error st k =
     (case promises st k of
        Some (Rejected e) \<Rightarrow> emit st (ErrorEvent e)
      | _ \<Rightarrow> st\<lparr>catches := k # catches st\<rparr>)"

text \<open>
  \<^verbatim>\<open>this._queue.get(key)\<close>: the keys are message ids, so only a number that is one of them
  finds an entry.
\<close>

definition queue_get :: "socket \<Rightarrow> jsvalue \<Rightarrow> nat option" where
  "queue_get st key =
     (case key of
        Number x \<Rightarrow>
          (case to_index x of
             None \<Rightarrow> None
           | Some k \<Rightarrow> if k \<in> set (this_queue st) then Some k else None)
      | _ \<Rightarrow> None)"

definition deserialize_body ::
  "version \<Rightarrow> library \<Rightarrow> buffer \<Rightarrow> jsvalue list result option" where
  "deserialize_body ver lib' buf =
     (case ver of
        Old \<Rightarrow> deserialize (JSON_parse lib') buf
      | Canonical \<Rightarrow> object2buffer_deserialize lib' buf)"

text \<open>
  \<^verbatim>\<open>_receiveData\<close>; \<open>None\<close> where the decoding of the frame does not return. The
  \<^verbatim>\<open>message\<close> event, which the code emits from a timer, is listed when it is scheduled.
\<close>

definition receiveData :: "socket \<Rightarrow> buffer \<Rightarrow> socket option" where
  "receiveData st data' =
     (case deserializeHeader (version st) (lib st) data' of
        None \<Rightarrow> None
      | Some (Throws e) \<Rightarrow> Some (emit st (ErrorEvent e))
      | Some (Ok header') \<Rightarrow>
          let st = (if truthy (needACK header')
                    then (let (k, st') = sendInternal st (ascii ''ack'') (Array [messageID header']) False True
                          in catch_emit_error st' k)
                    else st);
              rest = slice_from data' (headerLength header')
          in if truthy (isInternal header') then
               (case deserialize_body (version st) (lib st) rest of
                  None \<Rightarrow> None
                | Some (Throws e) \<Rightarrow> Some (emit st (ErrorEvent e))
                | Some (Ok body') \<Rightarrow>
                    if messageName header' = String (ascii ''ack'') then
                      (case queue_get st (nth_or_undefined body' 0) of
                         None \<Rightarrow> Some st
                       | Some callback \<Rightarrow> Some (control_ack st callback None))
                    else Some st)
             else if this_needDeserialize st then
               (case deserialize_body (version st) (lib st) rest of
                  None \<Rightarrow> None
                | Some (Throws e) \<Rightarrow> Some (emit st (ErrorEvent e))
                | Some (Ok body') \<Rightarrow>
                    Some (emit st (MessageEvent (messageName header') (Deserialized body'))))
             else Some (emit st (MessageEvent (messageName header') (Raw rest))))"

definition cancel :: "socket \<Rightarrow> nat \<Rightarrow> error option \<Rightarrow> bool \<times> socket" where
  "cancel st messageID' err =
     (if messageID' \<in> set (this_queue st) then control_cancel st messageID' err else (False, st))"

text \<open>
  The handler of \<^verbatim>\<open>close\<close>: \<^verbatim>\<open>for (let item of [...this._queue.values()].reverse())\<close>.
\<close>

fun close_loop :: "socket \<Rightarrow> nat list \<Rightarrow> socket" where
  "close_loop st [] = st"
| "close_loop st (item # items) =
     (let (result, st) = control_cancel st item (Some ConnectionAborted);
          st = (if result = False then control_ack st item (Some ConnectionAborted) else st)
      in close_loop st items)"

definition on_close :: "socket \<Rightarrow> socket" where
  "on_close st = close_loop st (rev (this_queue st))"

text \<open>
  What can happen to a socket: the calls of its public methods, a frame from the peer, the
  settling of a write, and the closing of the connection.
\<close>

datatype action =
    Send jsstring payload bool bool
  | Cancel nat "error option"
  | ReceiveData buffer
  | SendDataSettled nat "error option"
  | Close

fun fire :: "socket \<Rightarrow> action \<Rightarrow> socket option" where
  "fire st (Send messageName' data' needACK' prior) =
     Some (snd (send st messageName' data' needACK' prior))"
| "fire st (Cancel k err) = Some (snd (cancel st k err))"
| "fire st (ReceiveData data') = receiveData st data'"
| "fire st (SendDataSettled k r) = Some (sendData_settled st k r)"
| "fire st Close = Some (on_close st)"

inductive reachable :: "socket \<Rightarrow> bool" where
  init: "reachable (new_BaseSocket ver lib' needDeserialize maxPayload)"
| step: "reachable st \<Longrightarrow> fire st a = Some st' \<Longrightarrow> reachable st'"


subsection \<open>The invariant of the queue\<close>

definition sent_of :: "socket \<Rightarrow> nat \<Rightarrow> bool" where
  "sent_of st k = (case controls st k of None \<Rightarrow> False | Some control \<Rightarrow> sent control)"

definition prior_of :: "socket \<Rightarrow> nat \<Rightarrow> bool" where
  "prior_of st k = (case controls st k of None \<Rightarrow> False | Some control \<Rightarrow> captured_prior control)"

text \<open>
  The entries of the queue are distinct, they are the pending promises, each has its
  control object, and ids from \<open>this_messageID\<close> on are unused.
\<close>

definition inv_queue :: "socket \<Rightarrow> bool" where
  "inv_queue st \<longleftrightarrow>
     distinct (this_queue st)
     \<and> (\<forall>k. k \<in> set (this_queue st) \<longleftrightarrow> promises st k = Some Pending)
     \<and> (\<forall>k. k \<in> set (this_queue st) \<longrightarrow> controls st k \<noteq> None)
     \<and> (\<forall>k. this_messageID st \<le> k \<longrightarrow> promises st k = None \<and> controls st k = None)"

text \<open>
  The head of the queue has been sent, and an entry that has been sent is the head or was
  sent with \<^verbatim>\<open>prior\<close>.
\<close>

definition inv_flight :: "socket \<Rightarrow> bool" where
  "inv_flight st \<longleftrightarrow>
     (this_queue st \<noteq> [] \<longrightarrow> sent_of st (hd (this_queue st)))
     \<and> (\<forall>k. k \<in> set (this_queue st) \<and> sent_of st k \<longrightarrow>
            k = hd (this_queue st) \<or> prior_of st k)"

text \<open>The frames handed to \<^verbatim>\<open>_sendData\<close> are those of the controls that have been sent.\<close>

definition inv_wire :: "socket \<Rightarrow> bool" where
  "inv_wire st \<longleftrightarrow> (\<forall>k. k \<in> fst ` set (sendData_calls st) \<longleftrightarrow> sent_of st k)"

definition queue_inv :: "socket \<Rightarrow> bool" where
  "queue_inv st \<longleftrightarrow> inv_queue st \<and> inv_flight st \<and> inv_wire st"


subsection \<open>Intermediate states\<close>

definition outcome_of :: "error option \<Rightarrow> promise" where
  "outcome_of err = (case err of None \<Rightarrow> Resolved | Some e \<Rightarrow> Rejected e)"

text \<open>The queue without \<open>k\<close>, the promise \<open>k\<close> settled.\<close>

definition removed :: "socket \<Rightarrow> nat \<Rightarrow> error option \<Rightarrow> socket" where
  "removed st k err = reject_or_resolve (st\<lparr>this_queue := removeAll k (this_queue st)\<rparr>) k err"

text \<open>The socket after \<^verbatim>\<open>_send\<close> has taken an id and made its promise.\<close>

definition allocated :: "socket \<Rightarrow> socket" where
  "allocated st = st\<lparr>this_messageID := this_messageID st + 1,
                     promises := (promises st)(this_messageID st \<mapsto> Pending)\<rparr>"

definition enqueued :: "socket \<Rightarrow> control \<Rightarrow> socket" where
  "enqueued st c = (allocated st)\<lparr>controls := (controls st)(this_messageID st \<mapsto> c),
                                 this_queue := queue_set (this_queue st) (this_messageID st)\<rparr>"

text \<open>The socket after \<^verbatim>\<open>_receiveData\<close> has answered a header that asks for an acknowledgement.\<close>

definition replied :: "socket \<Rightarrow> header \<Rightarrow> socket" where
  "replied st h =
     (if truthy (needACK h)
      then (let (k, st') = sendInternal st (ascii ''ack'') (Array [messageID h]) False True
            in catch_emit_error st' k)
      else st)"


subsection \<open>A socket with two messages\<close>

text \<open>
  The scenario of the spec: on a new socket, \<^verbatim>\<open>send("greet", ["hi", 42, true])\<close> and then
  \<^verbatim>\<open>send("second", [], true, false)\<close>.
\<close>

definition greeted :: socket where
  "greeted = snd (send (new_BaseSocket Old own_codec None None) (ascii ''greet'')
                    (Array [String (ascii ''hi''), Number (double_of_nat 42), Boolean True]) True False)"

definition greeted_twice :: socket where
  "greeted_twice = snd (send greeted (ascii ''second'') (Array []) True False)"


subsection \<open>Waiting in the queue\<close>

text \<open>An entry that waits is sent only as the new head, when the head before it has settled.\<close>

definition sent_as_head :: "socket \<Rightarrow> socket \<Rightarrow> nat \<Rightarrow> bool" where
  "sent_as_head st st' k \<longleftrightarrow>
     this_queue st' \<noteq> [] \<and> hd (this_queue st') = k
     \<and> hd (this_queue st) \<notin> set (this_queue st')
     \<and> promises st' (hd (this_queue st)) \<noteq> Some Pending"


text \<open>
  The frame with which a peer of the old version acknowledges the message \<open>m\<close>; 7 is the id
  the peer gave the frame.
\<close>

definition ack_frame :: "nat \<Rightarrow> buffer" where
  "ack_frame m = serializeHeader Old own_codec True (ascii ''ack'') False (double_of_nat 7)
                   @ serialize [Number (double_of_nat m)]"


section \<open>Doubles: the numbers that are whole\<close>

lemma log2_bounds: "0 < n \<Longrightarrow> 2 ^ log2 n \<le> n \<and> n < 2 ^ Suc (log2 n)"
proof (induction n rule: log2.induct)
  case (1 n)
  show ?case
  proof (cases "n < 2")
    case True
    with "1.prems" have "n = 1" by simp
    then show ?thesis by (simp add: log2.simps)
  next
    case False
    then have "0 < n div 2" by simp
    with 1 False have IH: "2 ^ log2 (n div 2) \<le> n div 2 \<and> n div 2 < 2 ^ Suc (log2 (n div 2))"
      by simp
    from False have l: "log2 n = Suc (log2 (n div 2))" by (subst log2.simps) simp
    from IH show ?thesis unfolding l by auto
  qed
qed

lemma log2_unique:
  assumes "2 ^ e \<le> n" "n < 2 ^ Suc e"
  shows "log2 n = e"
proof -
  from assms(1) have pos: "0 < n" by (metis not_gr_zero not_less power_eq_0_iff zero_neq_numeral le_zero_eq)
  note b = log2_bounds [OF pos]
  have "\<not> log2 n < e"
  proof
    assume "log2 n < e"
    then have "Suc (log2 n) \<le> e" by simp
    then have "(2::nat) ^ Suc (log2 n) \<le> 2 ^ e" by (intro power_increasing) simp_all
    with b assms show False by simp
  qed
  moreover have "\<not> e < log2 n"
  proof
    assume "e < log2 n"
    then have "Suc e \<le> log2 n" by simp
    then have "(2::nat) ^ Suc e \<le> 2 ^ log2 n" by (intro power_increasing) simp_all
    with b assms show False by simp
  qed
  ultimately show ?thesis by simp
qed

lemma log2_mult_power:
  assumes "0 < m"
  shows "log2 (m * 2 ^ j) = log2 m + j"
proof (rule log2_unique)
  note b = log2_bounds [OF assms]
  from b have "2 ^ log2 m * 2 ^ j \<le> m * (2::nat) ^ j" by simp
  then show "2 ^ (log2 m + j) \<le> m * 2 ^ j" by (simp add: power_add)
  from b have "m * (2::nat) ^ j < 2 ^ Suc (log2 m) * 2 ^ j" by simp
  then show "m * 2 ^ j < 2 ^ Suc (log2 m + j)" by (simp add: power_add)
qed

text \<open>The fields of the double that holds a natural number below \<open>2 ^ 53\<close>.\<close>

lemma double_of_nat_fields:
  assumes "0 < n" "n < 2 ^ 53"
  shows "log2 n \<le> 52"
    and "unat (double_of_nat n) = (log2 n + 1023) * 2 ^ 52 + (n - 2 ^ log2 n) * 2 ^ (52 - log2 n)"
    and "(n - 2 ^ log2 n) * 2 ^ (52 - log2 n) < 2 ^ 52"
    and "2 ^ 52 + (n - 2 ^ log2 n) * 2 ^ (52 - log2 n) = n * 2 ^ (52 - log2 n)"
proof -
  define e where "e = log2 n"
  from assms have b: "2 ^ e \<le> n" "n < 2 ^ Suc e"
    using log2_bounds [of n] by (simp_all add: e_def)
  have "e < 53"
  proof (rule ccontr)
    assume "\<not> e < 53"
    then have "(2::nat) ^ 53 \<le> 2 ^ e" by (intro power_increasing) simp_all
    with b(1) assms show False by simp
  qed
  then have e52: "e \<le> 52" by simp
  then show "log2 n \<le> 52" by (simp add: e_def)
  define k where "k = 52 - e"
  have p: "(2::nat) ^ 52 = 2 ^ e * 2 ^ k"
    using e52 by (simp add: k_def flip: power_add)
  have q: "((n - 2 ^ e) * 2 ^ 52) div 2 ^ e = (n - 2 ^ e) * 2 ^ k"
    unfolding p by simp
  define f where "f = (n - 2 ^ e) * 2 ^ k"
  have "n - 2 ^ e < 2 ^ e" using b by simp
  then have "f < 2 ^ e * 2 ^ k" unfolding f_def by simp
  then have f52: "f < 2 ^ 52" by (simp only: p)
  have "2 ^ 52 + f = 2 ^ e * 2 ^ k + (n - 2 ^ e) * 2 ^ k"
    by (simp only: p f_def)
  also have "\<dots> = (2 ^ e + (n - 2 ^ e)) * 2 ^ k"
    by (simp only: add_mult_distrib)
  also have "\<dots> = n * 2 ^ k"
    using b(1) by simp
  finally have sig: "2 ^ 52 + f = n * 2 ^ k" .
  have d: "double_of_nat n = of_nat ((e + 1023) * 2 ^ 52 + f)"
    using assms(1) by (simp only: double_of_nat_def Let_def e_def [symmetric] q f_def [symmetric]) simp
  have "(e + 1023) * 2 ^ 52 + f < 1076 * 2 ^ 52" using e52 f52 by (simp add: algebra_simps)
  then have lt: "(e + 1023) * 2 ^ 52 + f < 2 ^ 64" by simp
  define M where "M = (e + 1023) * 2 ^ 52 + f"
  have "unat (of_nat M :: number) = M mod 2 ^ 64" by (simp add: unat_of_nat)
  moreover have "M < 2 ^ 64" using lt by (simp add: M_def)
  ultimately have "unat (of_nat M :: number) = M" by simp
  then show "unat (double_of_nat n) = (log2 n + 1023) * 2 ^ 52 + (n - 2 ^ log2 n) * 2 ^ (52 - log2 n)"
    unfolding d by (simp only: M_def f_def k_def e_def)
  show "(n - 2 ^ log2 n) * 2 ^ (52 - log2 n) < 2 ^ 52"
    using f52 by (simp only: f_def k_def e_def)
  show "2 ^ 52 + (n - 2 ^ log2 n) * 2 ^ (52 - log2 n) = n * 2 ^ (52 - log2 n)"
    using sig by (simp only: f_def k_def e_def)
qed

lemma fields_of_bits:
  assumes "e < 2047" "f < 2 ^ 52" "unat x = e * 2 ^ 52 + f"
  shows "sign_bit x = 0" "exponent x = e" "fraction x = f"
proof -
  have "e * 2 ^ 52 + f < 2047 * 2 ^ 52" using assms(1,2) by (simp add: algebra_simps)
  then have lt: "e * 2 ^ 52 + f < 2 ^ 63" by simp
  show "sign_bit x = 0" using lt by (simp add: sign_bit_def assms(3))
  have d: "(e * 2 ^ 52 + f) div 2 ^ 52 = e" using assms(2) by simp
  show "exponent x = e" unfolding exponent_def assms(3) d using assms(1) by simp
  show "fraction x = f" unfolding fraction_def assms(3) using assms(2) by simp
qed

lemma double_of_nat_scaled:
  assumes "n < 2 ^ 53"
  shows "is_finite (double_of_nat n)" "\<not> is_NaN (double_of_nat n)"
    "scaled (double_of_nat n) = int n * 2 ^ 1074"
proof -
  have "is_finite (double_of_nat n) \<and> \<not> is_NaN (double_of_nat n)
    \<and> scaled (double_of_nat n) = int n * 2 ^ 1074"
  proof (cases "n = 0")
    case True
    then show ?thesis
      by (simp add: double_of_nat_def is_finite_def is_NaN_def scaled_def exponent_def
          fraction_def sign_bit_def)
  next
    case False
    then have pos: "0 < n" by simp
    note d = double_of_nat_fields [OF pos assms]
    define e where "e = log2 n"
    define f where "f = (n - 2 ^ e) * 2 ^ (52 - e)"
    have e: "e + 1023 < 2047" using d(1) by (simp add: e_def)
    have u: "unat (double_of_nat n) = (e + 1023) * 2 ^ 52 + f"
      using d(2) by (simp only: e_def f_def)
    have f: "f < 2 ^ 52" using d(3) by (simp only: e_def f_def)
    note fb = fields_of_bits [OF e f u]
    have 1: "is_finite (double_of_nat n)" using e by (simp add: is_finite_def fb)
    have 2: "\<not> is_NaN (double_of_nat n)"
      using e fb(2) by (simp add: is_NaN_def exponent_def Let_def)
    have sig: "2 ^ 52 + f = n * 2 ^ (52 - e)" using d(4) by (simp only: e_def f_def)
    have a: "e + 1023 - 1 = e + 1022" by simp
    have x: "52 - e + (e + 1022) = 1074" using d(1) by (simp add: e_def)
    have "(2 ^ 52 + f) * 2 ^ (e + 1023 - 1) = (n * 2 ^ (52 - e)) * 2 ^ (e + 1022)"
      by (simp only: sig a)
    also have "\<dots> = n * 2 ^ (52 - e + (e + 1022))"
      by (simp only: mult.assoc power_add)
    finally have "(2 ^ 52 + f) * 2 ^ (e + 1023 - 1) = n * 2 ^ 1074"
      by (simp only: x)
    then have "int ((2 ^ 52 + f) * 2 ^ (e + 1023 - 1)) = int n * 2 ^ 1074"
      by (simp only: of_nat_mult of_nat_power of_nat_numeral)
    then have "scaled (double_of_nat n) = int n * 2 ^ 1074"
      by (simp add: scaled_def fb Let_def)
    with 1 2 show ?thesis by simp
  qed
  then show "is_finite (double_of_nat n)" "\<not> is_NaN (double_of_nat n)"
    "scaled (double_of_nat n) = int n * 2 ^ 1074"
    by simp_all
qed

lemma round_scaled_nat:
  assumes "m < 2 ^ 53"
  shows "round_scaled (int m * 2 ^ 1074) = double_of_nat m"
proof (cases "m = 0")
  case True
  have "log2 0 = 0" by (subst log2.simps) simp
  with True show ?thesis by (simp add: round_scaled_def double_of_nat_def)
next
  case False
  then have pos: "0 < m" by simp
  note d = double_of_nat_fields [OF pos assms]
  define l where "l = log2 m"
  define k where "k = l + 1022"
  define a where "a = m * 2 ^ 1074"
  have l52: "l \<le> 52" using d(1) by (simp add: l_def)
  have na: "nat \<bar>int m * 2 ^ 1074\<bar> = a"
    by (simp add: a_def nat_mult_distrib nat_power_eq)
  have la: "log2 a - 52 = k"
    using log2_mult_power [OF pos, of 1074] l52 by (simp add: a_def k_def l_def)
  have x: "1074 = (52 - l) + k" using l52 by (simp add: k_def)
  have a2: "a = (m * 2 ^ (52 - l)) * 2 ^ k"
    unfolding a_def by (subst x) (simp only: power_add mult.assoc)
  have q: "a div 2 ^ k = m * 2 ^ (52 - l)" unfolding a2 by simp
  have r: "a mod 2 ^ k = 0" unfolding a2 by simp
  have kpos: "0 < k" by (simp add: k_def)
  have nr: "\<not> ((2::nat) ^ k < 2 * 0 \<or> (2 * 0 = (2::nat) ^ k \<and> odd (m * 2 ^ (52 - l))))"
    by simp
  define f where "f = (m - 2 ^ l) * 2 ^ (52 - l)"
  have sig: "2 ^ 52 + f = m * 2 ^ (52 - l)" using d(4) by (simp only: f_def l_def)
  have f52: "f < 2 ^ 52" using d(3) by (simp only: f_def l_def)
  have bits: "k * 2 ^ 52 + m * 2 ^ (52 - l) = (l + 1023) * 2 ^ 52 + f"
    unfolding sig [symmetric] k_def by (simp add: algebra_simps)
  have small: "\<not> 2047 * 2 ^ 52 \<le> (l + 1023) * 2 ^ 52 + f"
  proof -
    have "(l + 1023) * 2 ^ 52 + f < 1076 * 2 ^ 52" using l52 f52 by (simp add: algebra_simps)
    then show ?thesis by simp
  qed
  have u: "unat (double_of_nat m) = (l + 1023) * 2 ^ 52 + f"
    using d(2) by (simp only: f_def l_def)
  have "round_scaled (int m * 2 ^ 1074) = of_nat ((l + 1023) * 2 ^ 52 + f)"
    unfolding round_scaled_def Let_def na la q r
    by (simp only: nr if_False bits small) simp
  also have "\<dots> = double_of_nat m"
    unfolding u [symmetric] by simp
  finally show ?thesis .
qed

lemma js_add_double_of_nat:
  assumes "a + n < 2 ^ 53"
  shows "js_add a (double_of_nat n) = double_of_nat (a + n)"
proof -
  from assms have n: "n < 2 ^ 53" by simp
  have "int a * 2 ^ 1074 + int n * 2 ^ 1074 = int (a + n) * 2 ^ 1074"
    by (simp add: algebra_simps)
  then show ?thesis
    unfolding js_add_def
    by (simp only: double_of_nat_scaled [OF n] if_True round_scaled_nat [OF assms])
qed

lemma js_less_double_of_nat:
  assumes "k < 2 ^ 53"
  shows "js_less (double_of_nat k) n \<longleftrightarrow> k < n"
  unfolding js_less_def by (simp only: double_of_nat_scaled [OF assms] if_True) simp

lemma trunc_double_of_nat:
  assumes "k < 2 ^ 53"
  shows "trunc (double_of_nat k) = int k"
  unfolding trunc_def Let_def by (simp only: double_of_nat_scaled [OF assms]) simp

lemma adjustOffset_double_of_nat:
  assumes "k < 2 ^ 53"
  shows "adjustOffset (double_of_nat k) n = min k n"
  unfolding adjustOffset_def Let_def
  by (simp only: double_of_nat_scaled [OF assms] trunc_double_of_nat [OF assms]) auto

lemma to_index_scaled:
  assumes "to_index x = Some n"
  shows "is_finite x" "\<not> is_NaN x" "\<bar>scaled x\<bar> = int n * 2 ^ 1074" "n \<noteq> 0 \<Longrightarrow> sign_bit x = 0"
proof -
  define e where "e = exponent x"
  define f where "f = fraction x"
  define s where "s = sign_bit x"
  have ti: "to_index x =
     (if e = 0 \<and> f = 0 then Some 0
      else if s = 1 \<or> e = 2047 \<or> e < 1023 then None
      else if 1075 \<le> e then Some ((2 ^ 52 + f) * 2 ^ (e - 1075))
      else if (2 ^ 52 + f) mod 2 ^ (1075 - e) = 0 then Some ((2 ^ 52 + f) div 2 ^ (1075 - e))
      else None)"
    by (simp only: to_index_def Let_def e_def f_def s_def exponent_def fraction_def sign_bit_def)
  have sc: "\<bar>scaled x\<bar> = (if e = 0 then int f else int ((2 ^ 52 + f) * 2 ^ (e - 1)))"
    by (simp add: scaled_def Let_def e_def f_def)
  have nan: "is_NaN x \<longleftrightarrow> e = 2047 \<and> f \<noteq> 0"
    by (simp add: is_NaN_def Let_def e_def f_def exponent_def fraction_def)
  have fin: "is_finite x \<longleftrightarrow> e \<noteq> 2047" by (simp add: is_finite_def e_def)
  have "unat x < 2 ^ 64" using unsigned_less [of x] by simp
  then have "unat x div 2 ^ 63 < 2" by simp
  then have s01: "s = 0 \<or> s = 1" by (auto simp: s_def sign_bit_def)
  show "is_finite x" "\<not> is_NaN x" "n \<noteq> 0 \<Longrightarrow> sign_bit x = 0"
    using assms s01 unfolding ti fin nan s_def [symmetric]
    by (auto split: if_splits)
  show "\<bar>scaled x\<bar> = int n * 2 ^ 1074"
  proof (cases "e = 0 \<and> f = 0")
    case True
    with assms show ?thesis unfolding ti sc by simp
  next
    case False
    with assms have e: "1023 \<le> e" "e \<noteq> 2047" unfolding ti by (auto split: if_splits)
    show ?thesis
    proof (cases "1075 \<le> e")
      case True
      with assms False e have n: "n = (2 ^ 52 + f) * 2 ^ (e - 1075)"
        unfolding ti by (auto split: if_splits)
      have x: "e - 1 = (e - 1075) + 1074" using True by simp
      have "(2 ^ 52 + f) * 2 ^ (e - 1) = n * 2 ^ 1074"
        unfolding n by (subst x) (simp only: power_add mult.assoc)
      then have "int ((2 ^ 52 + f) * 2 ^ (e - 1)) = int n * 2 ^ 1074"
        by (simp only: of_nat_mult of_nat_power of_nat_numeral)
      with e show ?thesis unfolding sc by simp
    next
      case c: False
      with assms False e have m: "(2 ^ 52 + f) mod 2 ^ (1075 - e) = 0"
        and n: "n = (2 ^ 52 + f) div 2 ^ (1075 - e)"
        unfolding ti by (auto split: if_splits)
      from m have dv: "2 ^ 52 + f = n * 2 ^ (1075 - e)"
        unfolding n by (simp add: mod_eq_0_iff_dvd)
      have x: "(1075 - e) + (e - 1) = 1074" using c e by simp
      have "(2 ^ 52 + f) * 2 ^ (e - 1) = n * 2 ^ ((1075 - e) + (e - 1))"
        by (subst dv) (simp only: power_add mult.assoc)
      then have "(2 ^ 52 + f) * 2 ^ (e - 1) = n * 2 ^ 1074" by (simp only: x)
      then have "int ((2 ^ 52 + f) * 2 ^ (e - 1)) = int n * 2 ^ 1074"
        by (simp only: of_nat_mult of_nat_power of_nat_numeral)
      with e show ?thesis unfolding sc by simp
    qed
  qed
qed

lemma to_index_double_of_nat:
  assumes "n < 2 ^ 53"
  shows "to_index (double_of_nat n) = Some n"
proof (cases "n = 0")
  case True
  then show ?thesis by (simp add: double_of_nat_def to_index_def)
next
  case False
  then have pos: "0 < n" by simp
  note d = double_of_nat_fields [OF pos assms]
  define e where "e = log2 n"
  define k where "k = 52 - e"
  define f where "f = (n - 2 ^ e) * 2 ^ k"
  have e52: "e \<le> 52" using d(1) by (simp add: e_def)
  have E: "e + 1023 < 2047" using e52 by simp
  have u: "unat (double_of_nat n) = (e + 1023) * 2 ^ 52 + f"
    using d(2) by (simp only: e_def f_def k_def)
  have f52: "f < 2 ^ 52" using d(3) by (simp only: e_def f_def k_def)
  have sig: "2 ^ 52 + f = n * 2 ^ k" using d(4) by (simp only: e_def f_def k_def)
  note fb = fields_of_bits [OF E f52 u]
  have ti: "to_index (double_of_nat n) =
     (if e + 1023 = 0 \<and> f = 0 then Some 0
      else if (0::nat) = 1 \<or> e + 1023 = 2047 \<or> e + 1023 < 1023 then None
      else if 1075 \<le> e + 1023 then Some ((2 ^ 52 + f) * 2 ^ (e + 1023 - 1075))
      else if (2 ^ 52 + f) mod 2 ^ (1075 - (e + 1023)) = 0
           then Some ((2 ^ 52 + f) div 2 ^ (1075 - (e + 1023)))
      else None)"
    using fb by (simp only: to_index_def Let_def exponent_def fraction_def sign_bit_def)
  have k: "1075 - (e + 1023) = k" using e52 by (simp add: k_def)
  show ?thesis
  proof (cases "e = 52")
    case True
    then have "k = 0" by (simp add: k_def)
    with sig have "2 ^ 52 + f = n" by simp
    with True show ?thesis unfolding ti by simp
  next
    case False
    with e52 have "\<not> 1075 \<le> e + 1023" by simp
    then show ?thesis
      unfolding ti k sig by simp
  qed
qed



section \<open>Strings: UTF-8 decodes what it encoded\<close>

lemma unat_byte: "k < 256 \<Longrightarrow> unat (of_nat k :: byte) = k"
  by (simp add: unat_of_nat)

lemma mod_offset: "d < n \<Longrightarrow> (k * n + d) mod n = (d::nat)"
  by simp

lemma split3: "(c::nat) = (c div 4096 * 64 + c div 64 mod 64) * 64 + c mod 64"
proof -
  have "c div 4096 = c div 64 div 64" by (simp add: div_mult2_eq)
  then have "c div 64 = c div 4096 * 64 + c div 64 mod 64" by simp
  then show ?thesis by simp
qed

lemma split4:
  "(c::nat) = ((c div 262144 * 64 + c div 4096 mod 64) * 64 + c div 64 mod 64) * 64 + c mod 64"
proof -
  have "c div 262144 = c div 4096 div 64" by (simp add: div_mult2_eq)
  then have "c div 4096 = c div 262144 * 64 + c div 4096 mod 64" by simp
  with split3 [of c] show ?thesis by simp
qed

lemma utf8_lead_ascii:
  assumes "unat b < 0x80"
  shows "utf8_lead b = ([of_nat (unat b)], (0, 0, 0x80, 0xBF))"
  using assms by (simp add: utf8_lead_def)

lemma utf8_lead_2:
  assumes "unat b = 192 + d" "2 \<le> d" "d < 32"
  shows "utf8_lead b = ([], (d, 1, 0x80, 0xBF))"
proof -
  have "(192 + d) mod 32 = d" using assms(3) mod_offset [of d 32 6] by simp
  with assms show ?thesis by (simp add: utf8_lead_def)
qed

lemma utf8_lead_3:
  assumes "unat b = 224 + d" "d < 16"
  shows "utf8_lead b = ([], (d, 2, if d = 0 then 0xA0 else 0x80, if d = 13 then 0x9F else 0xBF))"
proof -
  have "(224 + d) mod 16 = d" using assms(2) mod_offset [of d 16 14] by simp
  with assms show ?thesis by (simp add: utf8_lead_def)
qed

lemma utf8_lead_4:
  assumes "unat b = 240 + d" "d < 5"
  shows "utf8_lead b = ([], (d, 3, if d = 0 then 0x90 else 0x80, if d = 4 then 0x8F else 0xBF))"
proof -
  have "(240 + d) mod 8 = d" using assms(2) mod_offset [of d 8 30] by simp
  with assms show ?thesis by (simp add: utf8_lead_def)
qed

lemma utf8_step_continue:
  assumes "unat b = 128 + m" "m < 64" "lower \<le> 128 + m" "128 + m \<le> upper" "1 < needed"
  shows "utf8_step (c, needed, lower, upper) b = ([], (c * 64 + m, needed - 1, 0x80, 0xBF))"
proof -
  have "(128 + m) mod 64 = m" using assms(2) mod_offset [of m 64 2] by simp
  with assms show ?thesis by simp
qed

lemma utf8_step_last:
  assumes "unat b = 128 + m" "m < 64" "lower \<le> 128 + m" "128 + m \<le> upper"
  shows "utf8_step (c, 1, lower, upper) b = (code_units (c * 64 + m), (0, 0, 0x80, 0xBF))"
proof -
  have "(128 + m) mod 64 = m" using assms(2) mod_offset [of m 64 2] by simp
  with assms show ?thesis by simp
qed

lemma decode_1:
  assumes "c < 0x80"
  shows "utf8_decode (0, 0, 0x80, 0xBF) (utf8 c @ bs) = code_units c @ utf8_decode (0, 0, 0x80, 0xBF) bs"
proof -
  define b where "b = (of_nat c :: byte)"
  have u: "unat b = c" unfolding b_def using assms by (intro unat_byte) simp
  have e: "utf8 c = [b]" using assms by (simp add: utf8_def b_def)
  have l: "utf8_lead b = ([of_nat c], (0, 0, 0x80, 0xBF))"
    using utf8_lead_ascii [of b] assms by (simp add: u)
  have k: "code_units c = [of_nat c]" using assms by (simp add: code_units_def)
  have s0: "utf8_step (0, 0, 0x80, 0xBF) b = (code_units c, (0, 0, 0x80, 0xBF))"
    by (simp add: l k)
  show ?thesis
    unfolding e by (simp only: append_Cons append_Nil utf8_decode.simps(2) Let_def s0 prod.case)
qed

lemma decode_2:
  assumes "0x80 \<le> c" "c < 0x800"
  shows "utf8_decode (0, 0, 0x80, 0xBF) (utf8 c @ bs) = code_units c @ utf8_decode (0, 0, 0x80, 0xBF) bs"
proof -
  define d where "d = c div 64"
  define m where "m = c mod 64"
  define b1 where "b1 = (of_nat (0xC0 + c div 64) :: byte)"
  define b2 where "b2 = (of_nat (0x80 + c mod 64) :: byte)"
  have c: "d * 64 + m = c" by (simp add: d_def m_def)
  have m: "m < 64" by (simp add: m_def)
  have d: "2 \<le> d" "d < 32"
    using assms by (simp_all add: d_def less_mult_imp_div_less less_eq_div_iff_mult_less_eq)
  have u1: "unat b1 = 192 + d"
    unfolding b1_def d_def [symmetric] using d by (intro unat_byte) simp
  have u2: "unat b2 = 128 + m"
    unfolding b2_def m_def [symmetric] using m by (intro unat_byte) simp
  have e: "utf8 c = [b1, b2]"
    unfolding utf8_def b1_def b2_def using assms by simp
  note l = utf8_lead_2 [OF u1 d]
  have s0: "utf8_step (0, 0, 0x80, 0xBF) b1 = ([], (d, 1, 0x80, 0xBF))"
    by (simp add: l)
  have s: "utf8_step (d, 1, 0x80, 0xBF) b2 = (code_units c, (0, 0, 0x80, 0xBF))"
    using utf8_step_last [OF u2 m, of "0x80" "0xBF" d] m by (simp add: c)
  show ?thesis
    unfolding e by (simp only: append_Cons append_Nil utf8_decode.simps(2) Let_def s0 s prod.case)
qed

lemma decode_3:
  assumes "0x800 \<le> c" "c < 0x10000" "c < 0xD800 \<or> 0xE000 \<le> c"
  shows "utf8_decode (0, 0, 0x80, 0xBF) (utf8 c @ bs) = code_units c @ utf8_decode (0, 0, 0x80, 0xBF) bs"
proof -
  define d where "d = c div 4096"
  define m1 where "m1 = c div 64 mod 64"
  define m0 where "m0 = c mod 64"
  define b0 where "b0 = (of_nat (0xE0 + c div 4096) :: byte)"
  define b1 where "b1 = (of_nat (0x80 + c div 64 mod 64) :: byte)"
  define b2 where "b2 = (of_nat (0x80 + c mod 64) :: byte)"
  have c: "c = (d * 64 + m1) * 64 + m0" unfolding d_def m1_def m0_def by (rule split3)
  have m: "m1 < 64" "m0 < 64" by (simp_all add: m1_def m0_def)
  have d: "d < 16" using assms(2) by (simp add: d_def less_mult_imp_div_less)
  have lo: "32 \<le> m1" if "d = 0"
  proof -
    from that c have "c = m1 * 64 + m0" by simp
    with assms(1) m(2) show ?thesis by simp
  qed
  have hi: "m1 < 32" if "d = 13"
  proof -
    from that c have "c = 53248 + m1 * 64 + m0" by simp
    with assms(3) m show ?thesis by auto
  qed
  have u0: "unat b0 = 224 + d"
    unfolding b0_def d_def [symmetric] using d by (intro unat_byte) simp
  have u1: "unat b1 = 128 + m1"
    unfolding b1_def m1_def [symmetric] using m by (intro unat_byte) simp
  have u2: "unat b2 = 128 + m0"
    unfolding b2_def m0_def [symmetric] using m by (intro unat_byte) simp
  have e: "utf8 c = [b0, b1, b2]"
    unfolding utf8_def b0_def b1_def b2_def using assms by simp
  define lower where "lower = (if d = 0 then 0xA0 else (0x80::nat))"
  define upper where "upper = (if d = 13 then 0x9F else (0xBF::nat))"
  have s0: "utf8_step (0, 0, 0x80, 0xBF) b0 = ([], (d, 2, lower, upper))"
    using utf8_lead_3 [OF u0 d] by (simp add: lower_def upper_def)
  have b: "lower \<le> 128 + m1" "128 + m1 \<le> upper"
    using lo hi m by (auto simp: lower_def upper_def)
  have s1: "utf8_step (d, 2, lower, upper) b1 = ([], (d * 64 + m1, 1, 0x80, 0xBF))"
    using utf8_step_continue [OF u1 m(1) b, of 2 d] by simp
  have s2: "utf8_step (d * 64 + m1, 1, 0x80, 0xBF) b2 = (code_units c, (0, 0, 0x80, 0xBF))"
    using utf8_step_last [OF u2 m(2), of "0x80" "0xBF" "d * 64 + m1"] m c by simp
  show ?thesis
    unfolding e by (simp only: append_Cons append_Nil utf8_decode.simps(2) Let_def s0 s1 s2 prod.case)
qed

lemma decode_4:
  assumes "0x10000 \<le> c" "c < 0x110000"
  shows "utf8_decode (0, 0, 0x80, 0xBF) (utf8 c @ bs) = code_units c @ utf8_decode (0, 0, 0x80, 0xBF) bs"
proof -
  define d where "d = c div 262144"
  define m2 where "m2 = c div 4096 mod 64"
  define m1 where "m1 = c div 64 mod 64"
  define m0 where "m0 = c mod 64"
  define b0 where "b0 = (of_nat (0xF0 + c div 262144) :: byte)"
  define b3 where "b3 = (of_nat (0x80 + c div 4096 mod 64) :: byte)"
  define b1 where "b1 = (of_nat (0x80 + c div 64 mod 64) :: byte)"
  define b2 where "b2 = (of_nat (0x80 + c mod 64) :: byte)"
  have c: "c = ((d * 64 + m2) * 64 + m1) * 64 + m0"
    unfolding d_def m2_def m1_def m0_def by (rule split4)
  have m: "m2 < 64" "m1 < 64" "m0 < 64" by (simp_all add: m2_def m1_def m0_def)
  have d: "d < 5" using assms(2) by (simp add: d_def less_mult_imp_div_less)
  have lo: "16 \<le> m2" if "d = 0"
  proof -
    from that c have "c = m2 * 4096 + m1 * 64 + m0" by simp
    with assms(1) m(2,3) show ?thesis by simp
  qed
  have hi: "m2 < 16" if "d = 4"
  proof -
    from that c have "c = 1048576 + m2 * 4096 + m1 * 64 + m0" by simp
    with assms(2) m show ?thesis by simp
  qed
  have u0: "unat b0 = 240 + d"
    unfolding b0_def d_def [symmetric] using d by (intro unat_byte) simp
  have u3: "unat b3 = 128 + m2"
    unfolding b3_def m2_def [symmetric] using m by (intro unat_byte) simp
  have u1: "unat b1 = 128 + m1"
    unfolding b1_def m1_def [symmetric] using m by (intro unat_byte) simp
  have u2: "unat b2 = 128 + m0"
    unfolding b2_def m0_def [symmetric] using m by (intro unat_byte) simp
  have e: "utf8 c = [b0, b3, b1, b2]"
    unfolding utf8_def b0_def b3_def b1_def b2_def using assms by simp
  define lower where "lower = (if d = 0 then 0x90 else (0x80::nat))"
  define upper where "upper = (if d = 4 then 0x8F else (0xBF::nat))"
  have s0: "utf8_step (0, 0, 0x80, 0xBF) b0 = ([], (d, 3, lower, upper))"
    using utf8_lead_4 [OF u0 d] by (simp add: lower_def upper_def)
  have b: "lower \<le> 128 + m2" "128 + m2 \<le> upper"
    using lo hi m by (auto simp: lower_def upper_def)
  have s3: "utf8_step (d, 3, lower, upper) b3 = ([], (d * 64 + m2, 2, 0x80, 0xBF))"
    using utf8_step_continue [OF u3 m(1) b, of 3 d] by simp
  have s1: "utf8_step (d * 64 + m2, 2, 0x80, 0xBF) b1
            = ([], ((d * 64 + m2) * 64 + m1, 1, 0x80, 0xBF))"
    using utf8_step_continue [OF u1 m(2), of "0x80" "0xBF" 2 "d * 64 + m2"] m by simp
  have s2: "utf8_step ((d * 64 + m2) * 64 + m1, 1, 0x80, 0xBF) b2
            = (code_units c, (0, 0, 0x80, 0xBF))"
    using utf8_step_last [OF u2 m(3), of "0x80" "0xBF" "(d * 64 + m2) * 64 + m1"] m c by simp
  show ?thesis
    unfolding e by (simp only: append_Cons append_Nil utf8_decode.simps(2) Let_def s0 s3 s1 s2 prod.case)
qed

lemma decode_utf8:
  assumes "c < 0xD800 \<or> 0xE000 \<le> c" "c < 0x110000"
  shows "utf8_decode (0, 0, 0x80, 0xBF) (utf8 c @ bs) = code_units c @ utf8_decode (0, 0, 0x80, 0xBF) bs"
proof -
  consider "c < 0x80" | "0x80 \<le> c" "c < 0x800" | "0x800 \<le> c" "c < 0x10000" | "0x10000 \<le> c"
    by arith
  then show ?thesis
  proof cases
    case 1
    then show ?thesis by (rule decode_1)
  next
    case 2
    then show ?thesis by (rule decode_2)
  next
    case 3
    with assms(1) show ?thesis by (intro decode_3)
  next
    case 4
    with assms(2) show ?thesis by (intro decode_4)
  qed
qed

lemma code_units_unit: "code_units (unat (u :: 16 word)) = [u]"
proof -
  have "unat u < 2 ^ 16" using unsigned_less [of u] by simp
  then show ?thesis by (simp add: code_units_def)
qed

lemma code_units_pair:
  assumes "high_surrogate u" "low_surrogate v"
  shows "code_units (0x10000 + (unat u - 0xD800) * 0x400 + (unat v - 0xDC00)) = [u, v]"
    and "0x10000 + (unat u - 0xD800) * 0x400 + (unat v - 0xDC00) < 0x110000"
    and "0xE000 \<le> 0x10000 + (unat u - 0xD800) * 0x400 + (unat v - 0xDC00)"
proof -
  define h where "h = unat u - 0xD800"
  define l where "l = unat v - 0xDC00"
  have h: "h < 0x400" "unat u = 0xD800 + h" using assms(1) by (auto simp: high_surrogate_def h_def)
  have l: "l < 0x400" "unat v = 0xDC00 + l" using assms(2) by (auto simp: low_surrogate_def l_def)
  have d: "(h * 0x400 + l) div 0x400 = h" using l(1) by simp
  have m: "(h * 0x400 + l) mod 0x400 = l" using l(1) by simp
  have "code_units (0x10000 + h * 0x400 + l) = [of_nat (unat u), of_nat (unat v)]"
    unfolding h(2) l(2) using h(1) l(1) by (simp add: code_units_def d m)
  then show "code_units (0x10000 + (unat u - 0xD800) * 0x400 + (unat v - 0xDC00)) = [u, v]"
    by (simp add: h_def l_def)
  show "0x10000 + (unat u - 0xD800) * 0x400 + (unat v - 0xDC00) < 0x110000"
    using h(1) l(1) unfolding h_def [symmetric] l_def [symmetric] by arith
  show "0xE000 \<le> 0x10000 + (unat u - 0xD800) * 0x400 + (unat v - 0xDC00)"
    by simp
qed

lemma toString_Buffer_from:
  assumes "well_formed s"
  shows "toString (Buffer_from s) = s"
proof -
  have "utf8_decode (0, 0, 0x80, 0xBF) (Buffer_from s) = s"
    using assms
  proof (induction s rule: Buffer_from.induct)
    case 1
    show ?case by simp
  next
    case (2 u)
    then have n: "\<not> high_surrogate u" "\<not> low_surrogate u" by simp_all
    have "unat u < 2 ^ 16" using unsigned_less [of u] by simp
    with n have "unat u < 0xD800 \<or> 0xE000 \<le> unat u" "unat u < 0x110000"
      by (auto simp: high_surrogate_def low_surrogate_def)
    from decode_utf8 [OF this, of "[]"] n show ?case
      by (simp add: code_units_unit)
  next
    case (3 u v s)
    show ?case
    proof (cases "high_surrogate u")
      case True
      with "3.prems" have v: "low_surrogate v" and w: "well_formed s" by simp_all
      note p = code_units_pair [OF True v]
      from decode_utf8 [OF disjI2 [OF p(3)] p(2), of "Buffer_from s"] "3.IH"(1) True v w
      show ?thesis by (simp add: p(1))
    next
      case False
      with "3.prems" have n: "\<not> low_surrogate u" and w: "well_formed (v # s)" by simp_all
      have "unat u < 2 ^ 16" using unsigned_less [of u] by simp
      with n False have "unat u < 0xD800 \<or> 0xE000 \<le> unat u" "unat u < 0x110000"
        by (auto simp: high_surrogate_def low_surrogate_def)
      from decode_utf8 [OF this, of "Buffer_from (v # s)"] "3.IH"(3) False n w
      show ?thesis by (simp add: code_units_unit)
    qed
  qed
  then show ?thesis by (simp add: toString_def)
qed


section \<open>Bytes and doubles: round trips\<close>

lemma nat_of_bytes_snoc: "nat_of_bytes (bs @ [b]) = nat_of_bytes bs * 256 + unat b"
  by (simp add: nat_of_bytes_def)

lemma nat_of_be_bytes:
  "nat_of_bytes (map (\<lambda>i. (of_nat (m div 256 ^ (n - Suc i)) :: byte)) [0..<n]) = m mod 256 ^ n"
proof (induction n arbitrary: m)
  case 0
  show ?case by (simp add: nat_of_bytes_def)
next
  case (Suc n)
  have eq: "map (\<lambda>i. (of_nat (m div 256 ^ (n - i)) :: byte)) [0..<n]
          = map (\<lambda>i. (of_nat ((m div 256) div 256 ^ (n - Suc i)) :: byte)) [0..<n]"
  proof (rule map_cong [OF refl])
    fix i assume "i \<in> set [0..<n]"
    then have "i < n" by simp
    then have "n - i = Suc (n - Suc i)" by simp
    then show "(of_nat (m div 256 ^ (n - i)) :: byte) = of_nat ((m div 256) div 256 ^ (n - Suc i))"
      by (simp add: div_mult2_eq)
  qed
  have "nat_of_bytes (map (\<lambda>i. (of_nat (m div 256 ^ (Suc n - Suc i)) :: byte)) [0..<Suc n])
      = nat_of_bytes (map (\<lambda>i. (of_nat ((m div 256) div 256 ^ (n - Suc i)) :: byte)) [0..<n]) * 256
        + unat (of_nat m :: byte)"
    by (simp add: nat_of_bytes_snoc eq)
  also have "\<dots> = ((m div 256) mod 256 ^ n) * 256 + m mod 256"
    by (simp add: Suc.IH unat_of_nat)
  also have "\<dots> = m mod 256 ^ Suc n"
    by (simp add: mod_mult2_eq)
  finally show ?case .
qed

lemma nat_of_bytes_of_nat: "nat_of_bytes (bytes_of_nat m) = m mod 2 ^ 64"
proof -
  have "bytes_of_nat m = map (\<lambda>i. (of_nat (m div 256 ^ (8 - Suc i)) :: byte)) [0..<8]"
    by (simp add: bytes_of_nat_def)
  then have "nat_of_bytes (bytes_of_nat m) = m mod 256 ^ 8"
    by (simp only: nat_of_be_bytes)
  then show ?thesis by simp
qed

lemma length_writeDoubleBE [simp]: "length (writeDoubleBE x) = 8"
  by (simp add: writeDoubleBE_def bytes_of_nat_def)

lemma number_of_writeDoubleBE: "of_nat (nat_of_bytes (writeDoubleBE x)) = x"
proof -
  have "unat x < 2 ^ 64" using unsigned_less [of x] by simp
  then show ?thesis by (simp add: writeDoubleBE_def nat_of_bytes_of_nat)
qed

lemma readDoubleBE_write:
  "readDoubleBE (pre @ writeDoubleBE x @ rest) (length pre) = Ok x"
  by (simp add: readDoubleBE_def number_of_writeDoubleBE)

lemma to_index_whole:
  assumes "to_index x = Some n"
  shows "scaled x = int n * 2 ^ 1074"
proof (cases "n = 0")
  case True
  with to_index_scaled(3) [OF assms] show ?thesis by simp
next
  case False
  from to_index_scaled(4) [OF assms False] have "0 \<le> scaled x"
    by (simp add: scaled_def Let_def)
  with to_index_scaled(3) [OF assms] show ?thesis by simp
qed

lemma js_add_whole:
  assumes "to_index x = Some n" "a + n < 2 ^ 53"
  shows "js_add a x = double_of_nat (a + n)"
proof -
  have "int a * 2 ^ 1074 + int n * 2 ^ 1074 = int (a + n) * 2 ^ 1074"
    by (simp add: algebra_simps)
  then show ?thesis
    unfolding js_add_def
    by (simp only: to_index_scaled(1) [OF assms(1)] to_index_whole [OF assms(1)] if_True
        round_scaled_nat [OF assms(2)])
qed

lemma position_of_double_of_nat:
  "k < 2 ^ 53 \<Longrightarrow> position_of (double_of_nat k) = Whole k"
  by (simp add: position_of_def to_index_double_of_nat)

lemma slice_to_double_of_nat:
  "k < 2 ^ 53 \<Longrightarrow> slice_to buf start (double_of_nat k) = slice' buf start k"
  by (simp add: slice_to_def adjustOffset_double_of_nat slice'_def min_def)

lemma slice_from_double_of_nat:
  "k < 2 ^ 53 \<Longrightarrow> slice_from buf (double_of_nat k) = drop k buf"
  by (simp add: slice_from_def adjustOffset_double_of_nat slice'_def min_def)

section \<open>The value codec: decoding what was encoded\<close>

lemma readUInt8_at [simp]: "readUInt8 (pre @ b # rest) (length pre) = Ok b"
  by (simp add: readUInt8_def)

lemma readDoubleBE_after_tag:
  "readDoubleBE (pre @ t # writeDoubleBE x @ rest) (Suc (length pre)) = Ok x"
  using readDoubleBE_write [of "pre @ [t]" x rest] by simp

lemma read_content_whole:
  assumes "to_index x = Some n" "length pre + 9 + n < 2 ^ 53"
  shows "read_content (pre @ t # writeDoubleBE x @ rest) (Suc (length pre))
         = Ok (take n rest, Whole (length pre + 9 + n))"
proof -
  let ?buf = "pre @ t # writeDoubleBE x @ rest"
  have a: "Suc (length pre) + 8 + n < 2 ^ 53" using assms(2) by simp
  have j: "js_add (Suc (length pre) + 8) x = double_of_nat (Suc (length pre) + 8 + n)"
    by (rule js_add_whole [OF assms(1) a])
  have s: "slice' ?buf (Suc (length pre) + 8) (Suc (length pre) + 8 + n) = take n rest"
    by (simp add: slice'_def)
  have e: "Suc (length pre) + 8 + n = length pre + 9 + n" by simp
  show ?thesis
    unfolding read_content_def readDoubleBE_after_tag and_then_def Let_def result.case j
      slice_to_double_of_nat [OF a] position_of_double_of_nat [OF a] s
    by (simp only: e)
qed

lemma read_content_exact:
  assumes "length pre + 9 + length content < 2 ^ 53"
  shows "read_content (pre @ t # writeDoubleBE (double_of_nat (length content)) @ content @ rest)
           (Suc (length pre))
         = Ok (content, Whole (length pre + 9 + length content))"
proof -
  from assms have "length content < 2 ^ 53" by simp
  then have "to_index (double_of_nat (length content)) = Some (length content)"
    by (rule to_index_double_of_nat)
  from read_content_whole [OF this assms, of t "content @ rest"] show ?thesis by simp
qed

lemma decode_item_serialize_item:
  assumes "binary_item item" "length pre + length (serialize_item item) < 2 ^ 53"
  shows "decode_item parse (pre @ serialize_item item @ rest) (length pre)
         = Ok (item, Whole (length pre + length (serialize_item item)))"
proof (cases item)
  case (Number x)
  then show ?thesis
    by (simp add: decode_item_def and_then_def readDoubleBE_after_tag)
next
  case (String x)
  with assms have "length pre + 9 + length (Buffer_from x) < 2 ^ 53" "well_formed x"
    by (simp_all add: Let_def)
  from read_content_exact [OF this(1), of 1 rest] String this(2) show ?thesis
    by (simp add: decode_item_def and_then_def Let_def toString_Buffer_from)
next
  case (Boolean x)
  have "readUInt8 (pre @ 2 # (if x then 1 else 0) # rest) (Suc (length pre)) = Ok (if x then 1 else 0)"
    using readUInt8_at [of "pre @ [2]" "if x then 1 else 0" rest] by simp
  with Boolean show ?thesis
    by (simp add: decode_item_def and_then_def)
next
  case Undefined
  then show ?thesis by (simp add: decode_item_def and_then_def)
next
  case Null
  then show ?thesis by (simp add: decode_item_def and_then_def)
next
  case (Buffer x)
  with assms have "length pre + 9 + length x < 2 ^ 53" by (simp add: Let_def)
  from read_content_exact [OF this, of 6 rest] Buffer show ?thesis
    by (simp add: decode_item_def and_then_def Let_def)
next
  case (Object x)
  with assms show ?thesis by simp
qed

lemma length_serialize_item_pos: "0 < length (serialize_item item)"
  by (cases item) (simp_all add: Let_def)

lemma deserialize_loop_prefix:
  assumes "list_all binary_item items" "length pre + length (serialize items) < 2 ^ 53"
  shows "deserialize_loop parse (pre @ serialize items @ rest) (Whole (length pre)) res
         = deserialize_loop parse (pre @ serialize items @ rest)
             (Whole (length pre + length (serialize items))) (res @ items)"
  using assms
proof (induction items arbitrary: pre res)
  case Nil
  show ?case by (simp add: serialize_def)
next
  case (Cons item items)
  let ?buf = "pre @ serialize (item # items) @ rest"
  have buf: "?buf = pre @ serialize_item item @ serialize items @ rest"
    by (simp add: serialize_def)
  have lt: "length pre < length ?buf"
    using length_serialize_item_pos [of item] by (simp add: serialize_def)
  have b: "length pre + length (serialize_item item) < 2 ^ 53"
    using Cons.prems(2) by (simp add: serialize_def)
  have d: "decode_item parse ?buf (length pre)
           = Ok (item, Whole (length (pre @ serialize_item item)))"
    unfolding buf
    using Cons.prems(1) b decode_item_serialize_item [of item pre parse "serialize items @ rest"]
    by simp
  have IH: "deserialize_loop parse ((pre @ serialize_item item) @ serialize items @ rest)
              (Whole (length (pre @ serialize_item item))) (res @ [item])
            = deserialize_loop parse ((pre @ serialize_item item) @ serialize items @ rest)
                (Whole (length (pre @ serialize_item item) + length (serialize items)))
                ((res @ [item]) @ items)"
    using Cons.prems by (intro Cons.IH) (simp_all add: serialize_def)
  have "deserialize_loop parse ?buf (Whole (length pre)) res
        = deserialize_loop parse ?buf (Whole (length (pre @ serialize_item item))) (res @ [item])"
    by (subst deserialize_loop.simps) (simp only: position.case lt d if_True result.case prod.case)
  also have "\<dots> = deserialize_loop parse ?buf
                (Whole (length pre + length (serialize (item # items)))) (res @ item # items)"
    using IH by (simp add: buf add.assoc) (simp add: serialize_def)
  finally show ?case .
qed

lemma deserialize_prefix:
  assumes "list_all binary_item items" "length (serialize items) < 2 ^ 53"
  shows "deserialize parse (serialize items @ rest)
         = deserialize_loop parse (serialize items @ rest) (Whole (length (serialize items))) items"
  using deserialize_loop_prefix [OF assms(1), of "[]" parse rest "[]"] assms(2)
  by (simp add: deserialize_def)

lemma deserialize_loop_end:
  "length buf \<le> p \<Longrightarrow> deserialize_loop parse buf (Whole p) res = Some (Ok res)"
  by (subst deserialize_loop.simps) simp

lemma deserialize_serialize_items:
  assumes "list_all binary_item items" "length (serialize items) < 2 ^ 53"
  shows "deserialize parse (serialize items) = Some (Ok items)"
  using deserialize_prefix [OF assms, of parse "[]"] by (simp add: deserialize_loop_end)

lemma deserialize_clamped:
  assumes "list_all binary_item items" "to_index x = Some n" "length rest \<le> n"
    and b: "length (serialize items) + 9 + n < 2 ^ 53"
    and t: "t = 1 \<or> t = 5 \<or> t = 6"
  shows "deserialize parse (serialize items @ [t] @ writeDoubleBE x @ rest)
         = (if t = 1 then Some (Ok (items @ [String (toString rest)]))
            else if t = 6 then Some (Ok (items @ [Buffer rest]))
            else case parse (toString rest) of
                   None \<Rightarrow> Some (Throws SyntaxError)
                 | Some item \<Rightarrow> Some (Ok (items @ [item])))"
proof -
  let ?pre = "serialize items"
  let ?buf = "?pre @ t # writeDoubleBE x @ rest"
  have lt: "length ?pre < length ?buf" by simp
  have l: "length ?pre < 2 ^ 53" using b by simp
  have r: "read_content ?buf (Suc (length ?pre)) = Ok (rest, Whole (length ?pre + 9 + n))"
    using read_content_whole [OF assms(2) b, of t rest] assms(3) by simp
  have e: "length ?buf \<le> length ?pre + 9 + n" using assms(3) by simp
  have p: "deserialize parse (?pre @ [t] @ writeDoubleBE x @ rest)
        = deserialize_loop parse ?buf (Whole (length ?pre)) items"
    using deserialize_prefix [OF assms(1) l, of parse "[t] @ writeDoubleBE x @ rest"] by simp
  have t': "t = 1 \<or> (t \<noteq> 1 \<and> t = 6) \<or> (t \<noteq> 1 \<and> t \<noteq> 6 \<and> t = 5)" using t by auto
  show ?thesis
  proof (cases "t = 5 \<and> parse (toString rest) = None")
    case True
    with r have d: "decode_item parse ?buf (length ?pre) = Throws SyntaxError"
      by (simp add: decode_item_def and_then_def)
    have "deserialize_loop parse ?buf (Whole (length ?pre)) items = Some (Throws SyntaxError)"
      by (subst deserialize_loop.simps) (simp only: position.case lt d if_True result.case)
    with True show ?thesis unfolding p by simp
  next
    case False
    define item where "item = (if t = 1 then String (toString rest) else if t = 6 then Buffer rest
       else the (parse (toString rest)))"
    have d: "decode_item parse ?buf (length ?pre) = Ok (item, Whole (length ?pre + 9 + n))"
      using t False r by (auto simp: decode_item_def and_then_def item_def)
    have "deserialize_loop parse ?buf (Whole (length ?pre)) items
          = deserialize_loop parse ?buf (Whole (length ?pre + 9 + n)) (items @ [item])"
      by (subst deserialize_loop.simps)
        (simp only: position.case lt d if_True result.case prod.case)
    also have "\<dots> = Some (Ok (items @ [item]))"
      by (rule deserialize_loop_end [OF e])
    finally show ?thesis
      unfolding p using t False by (auto simp: item_def)
  qed
qed

section \<open>The value codec: when decoding fails\<close>







lemma item_start_unfold:
  "item_start buf p q \<longleftrightarrow> q = p \<or> (\<exists>p'. next_item buf p = Some p' \<and> item_start buf p' q)"
  by (auto intro: item_start.intros elim: item_start.cases)






section \<open>The value codec: examples\<close>






lemma lone_surrogate:
  "deserialize no_json (serialize [String [0xD800]]) = Some (Ok [String [0xFFFD]])"
proof -
  have i: "to_index (double_of_nat 3) = Some 3" by (rule to_index_double_of_nat) simp
  have b: "Buffer_from [0xD800] = [0xEF, 0xBF, 0xBD]"
    by (simp add: high_surrogate_def utf8_def)
  have s: "toString [0xEF, 0xBF, 0xBD] = [0xFFFD]"
    by (simp add: toString_def utf8_lead_def code_units_def)
  have l: "length [0xEF, 0xBF, 0xBD :: byte] = 3" by simp
  have e: "serialize [String [0xD800]]
           = serialize [] @ [1] @ writeDoubleBE (double_of_nat 3) @ [0xEF, 0xBF, 0xBD]"
    unfolding serialize_def
    by (simp only: list.map serialize_item.simps Let_def b l concat.simps append_Nil2 append_Nil)
  show ?thesis
    unfolding e
    using deserialize_clamped [of "[]" "double_of_nat 3" 3 "[0xEF, 0xBF, 0xBD]" 1 no_json] i
    by (simp add: serialize_def s)
qed








lemma bytes_one_and_a_half: "writeDoubleBE one_and_a_half = [63, 248, 0, 0, 0, 0, 0, 0]"
  "writeDoubleBE minus_nine = [192, 34, 0, 0, 0, 0, 0, 0]"
  by (simp_all add: one_and_a_half_def minus_nine_def writeDoubleBE_def bytes_of_nat_def upt_rec)


section \<open>The header codec: decoding what was encoded\<close>

lemma readDoubleBE_at_0: "readDoubleBE (writeDoubleBE x @ rest) 0 = Ok x"
  using readDoubleBE_write [of "[]" x rest] by simp

lemma readDoubleBE_at:
  "length pre = n \<Longrightarrow> readDoubleBE (pre @ writeDoubleBE x @ rest) n = Ok x"
  using readDoubleBE_write [of pre x rest] by simp

lemma readUInt8_at_n: "length pre = n \<Longrightarrow> readUInt8 (pre @ b # rest) n = Ok b"
  by (auto simp: readUInt8_def nth_append)

lemma serializeHeader_Old:
  "serializeHeader Old lib' i name a m =
     writeDoubleBE (double_of_nat (26 + length (Buffer_from name))) @ [if i then 1 else 0]
       @ writeDoubleBE (double_of_nat (length (Buffer_from name))) @ Buffer_from name
       @ [if a then 1 else 0] @ writeDoubleBE m"
  by (simp add: serializeHeader_def Let_def add_ac)

lemma length_serializeHeader_Old:
  "length (serializeHeader Old lib' i name a m) = 26 + length (Buffer_from name)"
  by (simp add: serializeHeader_Old)

lemma deserializeHeader_Old_bytes:
  assumes "length (Buffer_from name) + 26 < 2 ^ 53"
  shows "deserializeHeader Old lib' (serializeHeader Old lib' i name a m @ rest)
         = Some (Ok \<lparr>isInternal = Boolean i, messageName = String (toString (Buffer_from name)),
               needACK = Boolean a, messageID = Number m,
               headerLength = double_of_nat (26 + length (Buffer_from name))\<rparr>)"
proof -
  let ?n = "Buffer_from name"
  let ?hl = "writeDoubleBE (double_of_nat (26 + length ?n))"
  let ?i = "(if i then 1 else 0) :: byte"
  let ?nl = "writeDoubleBE (double_of_nat (length ?n))"
  let ?a = "(if a then 1 else 0) :: byte"
  let ?frame = "serializeHeader Old lib' i name a m @ rest"
  have f: "?frame = ?hl @ ?i # ?nl @ ?n @ ?a # writeDoubleBE m @ rest"
    by (simp add: serializeHeader_Old)
  have r0: "readDoubleBE ?frame 0 = Ok (double_of_nat (26 + length ?n))"
    unfolding f by (rule readDoubleBE_at_0)
  have r8: "readUInt8 ?frame 8 = Ok ?i"
    unfolding f using readUInt8_at_n [of ?hl 8 ?i] by simp
  have r9: "readDoubleBE ?frame 9 = Ok (double_of_nat (length ?n))"
    unfolding f using readDoubleBE_at [of "?hl @ [?i]" 9 "double_of_nat (length ?n)"] by simp
  have rn: "readUInt8 ?frame (17 + length ?n) = Ok ?a"
    unfolding f
    using readUInt8_at_n [of "?hl @ ?i # ?nl @ ?n" "17 + length ?n" ?a] by simp
  have rm: "readDoubleBE ?frame (17 + length ?n + 1) = Ok m"
    unfolding f
    using readDoubleBE_at [of "?hl @ ?i # ?nl @ ?n @ [?a]" "18 + length ?n" m]
    by simp
  have b: "17 + length ?n < 2 ^ 53" using assms by simp
  have j: "js_add 17 (double_of_nat (length ?n)) = double_of_nat (17 + length ?n)"
    by (rule js_add_double_of_nat [OF b])
  have sl: "slice' ?frame 17 (17 + length ?n) = ?n"
    unfolding f by (simp add: slice'_def)
  show ?thesis
    unfolding deserializeHeader_def version.case r0 r8 r9 and_then_def result.case Let_def j
      slice_to_double_of_nat [OF b] position_of_double_of_nat [OF b] position.case sl rn rm
    by simp
qed

lemma deserializeHeader_Old:
  assumes "well_formed name" "length (Buffer_from name) + 26 < 2 ^ 53"
  shows "deserializeHeader Old lib' (serializeHeader Old lib' i name a m @ rest)
         = Some (Ok \<lparr>isInternal = Boolean i, messageName = String name,
               needACK = Boolean a, messageID = Number m,
               headerLength = double_of_nat (26 + length (Buffer_from name))\<rparr>)"
  using deserializeHeader_Old_bytes [OF assms(2)] by (simp add: toString_Buffer_from [OF assms(1)])

lemma prefix_Old:
  "readDoubleBE (serializeHeader Old lib' i name a m @ rest) 0
   = Ok (double_of_nat (26 + length (Buffer_from name)))"
  unfolding serializeHeader_Old by (simp add: readDoubleBE_at_0)

lemma deserializeHeader_Canonical:
  assumes "length (object2buffer_serialize lib' [Boolean i, Boolean a, Number m, String name]) + 8
           < 2 ^ 53"
    and "object2buffer_deserialize lib'
           (object2buffer_serialize lib' [Boolean i, Boolean a, Number m, String name])
         = Some (Ok [Boolean i, Boolean a, Number m, String name])"
  shows "deserializeHeader Canonical lib' (serializeHeader Canonical lib' i name a m @ rest)
         = Some (Ok \<lparr>isInternal = Boolean i, messageName = String name, needACK = Boolean a,
               messageID = Number m,
               headerLength = double_of_nat (8 + length (object2buffer_serialize lib'
                                  [Boolean i, Boolean a, Number m, String name]))\<rparr>)"
    and "readDoubleBE (serializeHeader Canonical lib' i name a m @ rest) 0
         = Ok (double_of_nat (length (object2buffer_serialize lib'
                 [Boolean i, Boolean a, Number m, String name])))"
    and "length (serializeHeader Canonical lib' i name a m)
         = 8 + length (object2buffer_serialize lib' [Boolean i, Boolean a, Number m, String name])"
proof -
  let ?h = "object2buffer_serialize lib' [Boolean i, Boolean a, Number m, String name]"
  let ?frame = "serializeHeader Canonical lib' i name a m @ rest"
  have f: "?frame = writeDoubleBE (double_of_nat (length ?h)) @ ?h @ rest"
    by (simp add: serializeHeader_def Let_def)
  show r0: "readDoubleBE ?frame 0 = Ok (double_of_nat (length ?h))"
    unfolding f by (rule readDoubleBE_at_0)
  have b: "8 + length ?h < 2 ^ 53" using assms(1) by simp
  have j: "js_add 8 (double_of_nat (length ?h)) = double_of_nat (8 + length ?h)"
    by (rule js_add_double_of_nat [OF b])
  have sl: "slice' ?frame 8 (8 + length ?h) = ?h"
    unfolding f by (simp add: slice'_def)
  show "deserializeHeader Canonical lib' ?frame
         = Some (Ok \<lparr>isInternal = Boolean i, messageName = String name, needACK = Boolean a,
               messageID = Number m, headerLength = double_of_nat (8 + length ?h)\<rparr>)"
    unfolding deserializeHeader_def version.case r0 result.case j slice_to_double_of_nat [OF b] sl
      assms(2) option.case
    by (simp add: nth_or_undefined_def)
  show "length (serializeHeader Canonical lib' i name a m) = 8 + length ?h"
    by (simp add: serializeHeader_def Let_def)
qed

lemma slice_from_header:
  assumes "length hd' < 2 ^ 53"
  shows "slice_from (hd' @ rest) (double_of_nat (length hd')) = rest"
  by (simp add: slice_from_double_of_nat [OF assms])

lemma own_codec_round_trip:
  assumes "well_formed name" "length (Buffer_from name) < 1000"
  shows "length (object2buffer_serialize own_codec [Boolean i, Boolean a, Number m, String name]) + 8
           < 2 ^ 53"
    and "object2buffer_deserialize own_codec
           (object2buffer_serialize own_codec [Boolean i, Boolean a, Number m, String name])
         = Some (Ok [Boolean i, Boolean a, Number m, String name])"
proof -
  have l: "length (serialize [Boolean i, Boolean a, Number m, String name]) < 2000"
    using assms(2) by (simp add: serialize_def Let_def)
  then show "length (object2buffer_serialize own_codec [Boolean i, Boolean a, Number m, String name]) + 8
           < 2 ^ 53"
    by (simp add: own_codec_def)
  have "list_all binary_item [Boolean i, Boolean a, Number m, String name]"
    using assms(1) by simp
  moreover from l have "length (serialize [Boolean i, Boolean a, Number m, String name]) < 2 ^ 53"
    by simp
  ultimately show "object2buffer_deserialize own_codec
           (object2buffer_serialize own_codec [Boolean i, Boolean a, Number m, String name])
         = Some (Ok [Boolean i, Boolean a, Number m, String name])"
    using deserialize_serialize_items [of "[Boolean i, Boolean a, Number m, String name]" no_json]
    by (simp add: own_codec_def)
qed

lemma header_round_trip_Old:
  assumes "well_formed name \<and> length (Buffer_from name) + 26 < 2 ^ 53"
  shows "(let frame = serializeHeader Old lib' i name a m @ rest
       in case deserializeHeader Old lib' frame of
            Some (Ok h) \<Rightarrow>
              isInternal h = Boolean i \<and> messageName h = String name \<and> needACK h = Boolean a
              \<and> messageID h = Number m
              \<and> to_index (headerLength h) = Some (length (serializeHeader Old lib' i name a m))
              \<and> slice_from frame (headerLength h) = rest
              \<and> readDoubleBE frame 0 = Ok (headerLength h)
          | _ \<Rightarrow> False)"
proof -
  from assms have w: "well_formed name" and b: "length (Buffer_from name) + 26 < 2 ^ 53"
    by simp_all
  have b': "26 + length (Buffer_from name) < 2 ^ 53" using b by simp
  have l: "length (serializeHeader Old lib' i name a m) < 2 ^ 53"
    using b by (simp add: length_serializeHeader_Old)
  have s: "slice_from (serializeHeader Old lib' i name a m @ rest)
             (double_of_nat (26 + length (Buffer_from name))) = rest"
    using slice_from_header [OF l, of rest] by (simp add: length_serializeHeader_Old)
  show ?thesis
    unfolding Let_def deserializeHeader_Old [OF w b] option.case result.case
    by (simp add: to_index_double_of_nat [OF b'] length_serializeHeader_Old s prefix_Old)
qed

lemma header_round_trip_Canonical:
  assumes "length (object2buffer_serialize lib' [Boolean i, Boolean a, Number m, String name]) + 8
          < 2 ^ 53
        \<and> object2buffer_deserialize lib'
            (object2buffer_serialize lib' [Boolean i, Boolean a, Number m, String name])
          = Some (Ok [Boolean i, Boolean a, Number m, String name])"
  shows "(let frame = serializeHeader Canonical lib' i name a m @ rest
       in case deserializeHeader Canonical lib' frame of
            Some (Ok h) \<Rightarrow>
              isInternal h = Boolean i \<and> messageName h = String name \<and> needACK h = Boolean a
              \<and> messageID h = Number m
              \<and> to_index (headerLength h)
                  = Some (length (serializeHeader Canonical lib' i name a m))
              \<and> slice_from frame (headerLength h) = rest
              \<and> (case readDoubleBE frame 0 of
                    Ok prefix' \<Rightarrow> headerLength h = js_add 8 prefix'
                  | Throws e \<Rightarrow> False)
          | _ \<Rightarrow> False)"
proof -
  let ?h = "object2buffer_serialize lib' [Boolean i, Boolean a, Number m, String name]"
  from assms have b: "length ?h + 8 < 2 ^ 53"
    and r: "object2buffer_deserialize lib' ?h
            = Some (Ok [Boolean i, Boolean a, Number m, String name])"
    by simp_all
  note d = deserializeHeader_Canonical [OF b r]
  have b': "8 + length ?h < 2 ^ 53" using b by simp
  have l: "length (serializeHeader Canonical lib' i name a m) < 2 ^ 53"
    using b by (simp add: d(3))
  have s: "slice_from (serializeHeader Canonical lib' i name a m @ rest)
             (double_of_nat (8 + length ?h)) = rest"
    using slice_from_header [OF l, of rest] by (simp add: d(3))
  have j: "js_add 8 (double_of_nat (length ?h)) = double_of_nat (8 + length ?h)"
    by (rule js_add_double_of_nat [OF b'])
  show ?thesis
    unfolding Let_def d(1) d(2) option.case result.case
    by (simp add: to_index_double_of_nat [OF b'] d(3) s j)
qed


section \<open>The send queue: what each step changes\<close>

lemma settle_unchanged [simp]:
  "version (settle st k outcome) = version st"
  "lib (settle st k outcome) = lib st"
  "this_messageID (settle st k outcome) = this_messageID st"
  "this_queue (settle st k outcome) = this_queue st"
  "this_needDeserialize (settle st k outcome) = this_needDeserialize st"
  "this_maxPayload (settle st k outcome) = this_maxPayload st"
  "controls (settle st k outcome) = controls st"
  "catches (settle st k outcome) = catches st"
  "sendData_calls (settle st k outcome) = sendData_calls st"
  "inflight (settle st k outcome) = inflight st"
  by (simp_all add: settle_def)

lemma promises_settle:
  "promises (settle st k outcome) =
     (if promises st k = Some Pending then (promises st)(k \<mapsto> outcome) else promises st)"
  by (simp add: settle_def)

lemma settled_settle:
  "settled (settle st k outcome) =
     (if promises st k = Some Pending then settled st @ [(k, outcome)] else settled st)"
  by (simp add: settle_def)

lemma send'_too_large:
  assumes "make_sendingData (version st) (lib st)
             (serializeHeader (version st) (lib st) i name a (double_of_nat (this_messageID st))) d
           = Inr frame"
    and "exceeds_maxPayload (version st) (this_maxPayload st) (length frame)"
  shows "send' st i p name a d =
           (this_messageID st,
            settle (st\<lparr>this_messageID := this_messageID st + 1,
                       promises := (promises st)(this_messageID st \<mapsto> Pending)\<rparr>)
              (this_messageID st) (Rejected PayloadTooLarge))"
  using assms by (simp add: send'_def Let_def)

lemma send'_queued:
  assumes "make_sendingData (version st) (lib st)
             (serializeHeader (version st) (lib st) i name a (double_of_nat (this_messageID st))) d
           = Inr frame"
    and "\<not> exceeds_maxPayload (version st) (this_maxPayload st) (length frame)"
  shows "send' st i p name a d =
           (this_messageID st,
            let st1 = st\<lparr>this_messageID := this_messageID st + 1,
                          promises := (promises st)(this_messageID st \<mapsto> Pending),
                          controls := (controls st)(this_messageID st \<mapsto>
                             \<lparr>data = frame, msgID = this_messageID st, sent = False,
                              captured_needACK = a, captured_prior = p\<rparr>),
                          this_queue := queue_set (this_queue st) (this_messageID st)\<rparr>
            in if p \<or> length (this_queue st1) = 1 then control_send st1 (this_messageID st)
               else st1)"
  using assms by (simp add: send'_def Let_def)

lemma control_send_unchanged [simp]:
  "version (control_send st k) = version st"
  "lib (control_send st k) = lib st"
  "this_messageID (control_send st k) = this_messageID st"
  "this_queue (control_send st k) = this_queue st"
  "this_needDeserialize (control_send st k) = this_needDeserialize st"
  "this_maxPayload (control_send st k) = this_maxPayload st"
  "promises (control_send st k) = promises st"
  "catches (control_send st k) = catches st"
  "settled (control_send st k) = settled st"
  "emitted (control_send st k) = emitted st"
  by (simp_all add: control_send_def split: option.splits)


section \<open>The send queue: the invariant holds\<close>

lemma settle_emitted:
  "emitted (settle st k outcome) =
     (if promises st k = Some Pending then
        (case outcome of
           Rejected e \<Rightarrow> if k \<in> set (catches st) then emitted st @ [ErrorEvent e] else emitted st
         | _ \<Rightarrow> emitted st)
      else emitted st)"
  by (simp add: settle_def)

lemma sent_of_settle [simp]: "sent_of (settle st k outcome) = sent_of st"
  by (simp add: sent_of_def fun_eq_iff)

lemma prior_of_settle [simp]: "prior_of (settle st k outcome) = prior_of st"
  by (simp add: prior_of_def fun_eq_iff)

lemma reject_or_resolve_unchanged [simp]:
  "version (reject_or_resolve st k err) = version st"
  "lib (reject_or_resolve st k err) = lib st"
  "this_messageID (reject_or_resolve st k err) = this_messageID st"
  "this_queue (reject_or_resolve st k err) = this_queue st"
  "this_needDeserialize (reject_or_resolve st k err) = this_needDeserialize st"
  "this_maxPayload (reject_or_resolve st k err) = this_maxPayload st"
  "controls (reject_or_resolve st k err) = controls st"
  "catches (reject_or_resolve st k err) = catches st"
  "sendData_calls (reject_or_resolve st k err) = sendData_calls st"
  "inflight (reject_or_resolve st k err) = inflight st"
  "sent_of (reject_or_resolve st k err) = sent_of st"
  "prior_of (reject_or_resolve st k err) = prior_of st"
  by (simp_all add: reject_or_resolve_def split: option.splits)

lemma reject_or_resolve_settle: "reject_or_resolve st k err = settle st k (outcome_of err)"
  by (simp add: reject_or_resolve_def outcome_of_def split: option.splits)

lemma promises_reject_or_resolve:
  "promises (reject_or_resolve st k err) =
     (if promises st k = Some Pending then (promises st)(k \<mapsto> outcome_of err) else promises st)"
  by (simp add: reject_or_resolve_settle promises_settle)

lemma settled_reject_or_resolve:
  "settled (reject_or_resolve st k err) =
     (if promises st k = Some Pending then settled st @ [(k, outcome_of err)] else settled st)"
  by (simp add: reject_or_resolve_settle settled_settle)

lemma outcome_of_not_Pending [simp]: "outcome_of err \<noteq> Pending"
  by (simp add: outcome_of_def split: option.splits)

lemma control_send_controls:
  "controls (control_send st h) k = None \<longleftrightarrow> controls st k = None"
  by (simp add: control_send_def split: option.splits)

lemma sent_of_control_send:
  "sent_of (control_send st h) k \<longleftrightarrow> sent_of st k \<or> (k = h \<and> controls st h \<noteq> None)"
  by (auto simp: control_send_def sent_of_def split: option.splits)

lemma prior_of_control_send [simp]: "prior_of (control_send st h) = prior_of st"
  by (auto simp: control_send_def prior_of_def fun_eq_iff split: option.splits)

lemma sendData_calls_control_send:
  "sendData_calls (control_send st h) =
     (case controls st h of
        None \<Rightarrow> sendData_calls st
      | Some c \<Rightarrow> if sent c then sendData_calls st else sendData_calls st @ [(h, data c)])"
  by (simp add: control_send_def split: option.splits)

lemma wire_control_send:
  "fst ` set (sendData_calls (control_send st h)) =
     (if controls st h \<noteq> None \<and> \<not> sent_of st h then insert h (fst ` set (sendData_calls st))
      else fst ` set (sendData_calls st))"
  by (auto simp: sendData_calls_control_send sent_of_def split: option.splits)

lemma queue_inv_control_send:
  assumes "queue_inv st" and "h \<in> set (this_queue st) \<longrightarrow> h = hd (this_queue st) \<or> prior_of st h"
  shows "queue_inv (control_send st h)"
  using assms
  unfolding queue_inv_def inv_queue_def inv_flight_def inv_wire_def
  by (auto simp: control_send_controls sent_of_control_send wire_control_send)


lemma hd_removeAll: "q \<noteq> [] \<Longrightarrow> hd q \<noteq> k \<Longrightarrow> hd (removeAll k q) = hd q \<and> removeAll k q \<noteq> []"
  by (cases q) auto

lemma removeAll_hd: "distinct q \<Longrightarrow> q \<noteq> [] \<Longrightarrow> removeAll (hd q) q = tl q"
  by (cases q) auto

lemma control_ack_eq:
  "control_ack st k err =
     (let st1 = reject_or_resolve (st\<lparr>this_queue := removeAll k (this_queue st)\<rparr>) k err
      in if this_queue st \<noteq> [] \<and> hd (this_queue st) = k \<and> removeAll k (this_queue st) \<noteq> []
         then control_send st1 (hd (removeAll k (this_queue st)))
         else st1)"
  by (simp add: control_ack_def Let_def split: list.splits)

lemma sent_of_queue_update [simp]: "sent_of (st\<lparr>this_queue := q\<rparr>) = sent_of st"
  by (simp add: sent_of_def fun_eq_iff)

lemma prior_of_queue_update [simp]: "prior_of (st\<lparr>this_queue := q\<rparr>) = prior_of st"
  by (simp add: prior_of_def fun_eq_iff)

lemma control_ack_absent:
  assumes "inv_queue st" "k \<notin> set (this_queue st)"
  shows "control_ack st k err = st"
proof -
  from assms have "promises st k \<noteq> Some Pending" by (auto simp: inv_queue_def)
  moreover from assms(2) have "removeAll k (this_queue st) = this_queue st" by simp
  moreover from assms(2) have "this_queue st \<noteq> [] \<longrightarrow> hd (this_queue st) \<noteq> k" by auto
  ultimately show ?thesis
    by (auto simp: control_ack_eq reject_or_resolve_settle settle_def)
qed

lemma removed_fields:
  "this_queue (removed st k err) = removeAll k (this_queue st)"
  "controls (removed st k err) = controls st"
  "this_messageID (removed st k err) = this_messageID st"
  "sendData_calls (removed st k err) = sendData_calls st"
  "inflight (removed st k err) = inflight st"
  "sent_of (removed st k err) = sent_of st"
  "prior_of (removed st k err) = prior_of st"
  "version (removed st k err) = version st"
  "lib (removed st k err) = lib st"
  "this_maxPayload (removed st k err) = this_maxPayload st"
  "this_needDeserialize (removed st k err) = this_needDeserialize st"
  "catches (removed st k err) = catches st"
  by (simp_all add: removed_def)

lemma promises_removed:
  "promises (removed st k err) =
     (if promises st k = Some Pending then (promises st)(k \<mapsto> outcome_of err) else promises st)"
  by (simp add: removed_def promises_reject_or_resolve)

lemma settled_removed:
  "settled (removed st k err) =
     (if promises st k = Some Pending then settled st @ [(k, outcome_of err)] else settled st)"
  by (simp add: removed_def settled_reject_or_resolve)

lemma inv_queue_removed:
  assumes "inv_queue st"
  shows "inv_queue (removed st k err)"
  using assms unfolding inv_queue_def
  by (auto simp: removed_fields promises_removed distinct_removeAll)

lemma inv_wire_removed:
  assumes "inv_wire st"
  shows "inv_wire (removed st k err)"
  using assms unfolding inv_wire_def by (simp add: removed_fields)

lemma inv_flight_removed_other:
  assumes "inv_flight st" "this_queue st \<noteq> [] \<longrightarrow> hd (this_queue st) \<noteq> k"
  shows "inv_flight (removed st k err)"
proof (cases "this_queue st = []")
  case True
  then show ?thesis by (simp add: inv_flight_def removed_fields)
next
  case False
  with assms(2) have "hd (removeAll k (this_queue st)) = hd (this_queue st)"
    "removeAll k (this_queue st) \<noteq> []"
    using hd_removeAll [of "this_queue st" k] by simp_all
  with assms(1) False show ?thesis
    unfolding inv_flight_def by (auto simp: removed_fields)
qed

lemma queue_inv_control_ack:
  assumes "queue_inv st"
  shows "queue_inv (control_ack st k err)"
proof (cases "this_queue st \<noteq> [] \<and> hd (this_queue st) = k")
  case False
  then have "control_ack st k err = removed st k err"
    by (auto simp: control_ack_eq removed_def)
  moreover have "queue_inv (removed st k err)"
    using assms False inv_queue_removed inv_wire_removed inv_flight_removed_other [of st k err]
    by (auto simp: queue_inv_def)
  ultimately show ?thesis by simp
next
  case True
  let ?q = "this_queue st"
  from assms have d: "distinct ?q" by (simp add: queue_inv_def inv_queue_def)
  from True d have tl: "removeAll k ?q = tl ?q" using removeAll_hd [of ?q] by auto
  have iq: "inv_queue (removed st k err)" and iw: "inv_wire (removed st k err)"
    using assms by (simp_all add: queue_inv_def inv_queue_removed inv_wire_removed)
  show ?thesis
  proof (cases "tl ?q = []")
    case True
    with tl \<open>?q \<noteq> [] \<and> hd ?q = k\<close> have "control_ack st k err = removed st k err"
      by (simp add: control_ack_eq removed_def)
    moreover have "inv_flight (removed st k err)"
      using True tl by (simp add: inv_flight_def removed_fields)
    ultimately show ?thesis using iq iw by (simp add: queue_inv_def)
  next
    case False
    let ?h = "hd (tl ?q)"
    from False tl \<open>?q \<noteq> [] \<and> hd ?q = k\<close>
    have e: "control_ack st k err = control_send (removed st k err) ?h"
      by (simp add: control_ack_eq removed_def)
    from False have hin: "?h \<in> set (tl ?q)" by simp
    then have hq: "?h \<in> set ?q" by (rule list.set_sel(2) [rotated]) (use True in simp)
    from assms hq have hc: "controls st ?h \<noteq> None" by (auto simp: queue_inv_def inv_queue_def)
    have notk: "\<And>j. j \<in> set (tl ?q) \<Longrightarrow> j \<noteq> k"
      using d True by (cases ?q) auto
    have inq: "\<And>j. j \<in> set (tl ?q) \<Longrightarrow> j \<in> set ?q"
      using True by (cases ?q) auto
    have fl: "inv_flight (control_send (removed st k err) ?h)"
      unfolding inv_flight_def
    proof (intro conjI impI allI)
      show "sent_of (control_send (removed st k err) ?h)
              (hd (this_queue (control_send (removed st k err) ?h)))"
        using hc by (simp add: sent_of_control_send removed_fields tl)
    next
      fix j
      assume j: "j \<in> set (this_queue (control_send (removed st k err) ?h))
                 \<and> sent_of (control_send (removed st k err) ?h) j"
      then have jt: "j \<in> set (tl ?q)" by (simp add: removed_fields tl)
      from j have "sent_of st j \<or> j = ?h" by (auto simp: sent_of_control_send removed_fields)
      then show "j = hd (this_queue (control_send (removed st k err) ?h))
                 \<or> prior_of (control_send (removed st k err) ?h) j"
      proof
        assume "sent_of st j"
        with assms inq [OF jt] have "j = hd ?q \<or> prior_of st j"
          by (auto simp: queue_inv_def inv_flight_def)
        with notk [OF jt] True show ?thesis by (auto simp: removed_fields)
      next
        assume "j = ?h"
        then show ?thesis by (simp add: removed_fields tl)
      qed
    qed
    have "inv_queue (control_send (removed st k err) ?h)"
      using iq unfolding inv_queue_def by (simp add: control_send_controls)
    moreover have "inv_wire (control_send (removed st k err) ?h)"
      using iw hc unfolding inv_wire_def
      by (auto simp: wire_control_send sent_of_control_send removed_fields)
    ultimately show ?thesis using fl e by (simp add: queue_inv_def)
  qed
qed


lemma control_cancel_eq:
  "control_cancel st k err =
     (if controls st k \<noteq> None \<and> \<not> sent_of st k then (True, removed st k err) else (False, st))"
  by (auto simp: control_cancel_def removed_def sent_of_def split: option.splits)

lemma queue_inv_removed_unsent:
  assumes "queue_inv st" "\<not> sent_of st k"
  shows "queue_inv (removed st k err)"
proof -
  from assms have "this_queue st \<noteq> [] \<longrightarrow> hd (this_queue st) \<noteq> k"
    by (auto simp: queue_inv_def inv_flight_def)
  with assms(1) show ?thesis
    using inv_queue_removed inv_wire_removed inv_flight_removed_other [of st k err]
    by (auto simp: queue_inv_def)
qed

lemma queue_inv_control_cancel:
  assumes "queue_inv st"
  shows "queue_inv (snd (control_cancel st k err))"
  using assms queue_inv_removed_unsent [of st k err] by (simp add: control_cancel_eq)

lemma queue_inv_cancel:
  assumes "queue_inv st"
  shows "queue_inv (snd (cancel st k err))"
  using assms queue_inv_control_cancel [of st k err] by (simp add: cancel_def)

lemma queue_inv_emit [simp]: "queue_inv (emit st ev) \<longleftrightarrow> queue_inv st"
  by (simp add: emit_def queue_inv_def inv_queue_def inv_flight_def inv_wire_def sent_of_def
      prior_of_def)

lemma queue_inv_catch_emit_error [simp]: "queue_inv (catch_emit_error st k) \<longleftrightarrow> queue_inv st"
  by (simp add: catch_emit_error_def emit_def queue_inv_def inv_queue_def inv_flight_def
      inv_wire_def sent_of_def prior_of_def split: option.splits promise.splits)

lemma queue_inv_inflight_update [simp]: "queue_inv (st\<lparr>inflight := x\<rparr>) \<longleftrightarrow> queue_inv st"
  by (simp add: queue_inv_def inv_queue_def inv_flight_def inv_wire_def sent_of_def prior_of_def)

lemma queue_inv_sendData_settled:
  assumes "queue_inv st"
  shows "queue_inv (sendData_settled st k r)"
  using assms
  by (auto simp: sendData_settled_def Let_def queue_inv_control_ack split: option.splits)

lemma send'_cases:
  assumes "this_messageID st \<notin> set (this_queue st)"
  shows "snd (send' st i p name a d) =
     (case make_sendingData (version st) (lib st)
             (serializeHeader (version st) (lib st) i name a (double_of_nat (this_messageID st))) d of
        Inl e \<Rightarrow> settle (allocated st) (this_messageID st) (Rejected e)
      | Inr frame \<Rightarrow>
          if exceeds_maxPayload (version st) (this_maxPayload st) (length frame)
          then settle (allocated st) (this_messageID st) (Rejected PayloadTooLarge)
          else
            let st2 = enqueued st \<lparr>data = frame, msgID = this_messageID st, sent = False,
                                   captured_needACK = a, captured_prior = p\<rparr>
            in if p \<or> this_queue st = [] then control_send st2 (this_messageID st) else st2)"
proof -
  have "length (queue_set (this_queue st) (this_messageID st)) = 1 \<longleftrightarrow> this_queue st = []"
    using assms by (cases "this_queue st") (auto simp: queue_set_def)
  then show ?thesis
    by (simp add: send'_def allocated_def enqueued_def Let_def split: sum.splits)
qed

lemma fst_send' [simp]: "fst (send' st i p name a d) = this_messageID st"
  by (simp add: send'_def Let_def)

lemma fresh_id:
  assumes "inv_queue st"
  shows "this_messageID st \<notin> set (this_queue st)" "promises st (this_messageID st) = None"
    "controls st (this_messageID st) = None"
  using assms by (auto simp: inv_queue_def)

lemma queue_inv_rejected:
  assumes "queue_inv st" "outcome \<noteq> Pending"
  shows "queue_inv (settle (allocated st) (this_messageID st) outcome)"
proof -
  from assms(1) have i: "inv_queue st" by (simp add: queue_inv_def)
  note f = fresh_id [OF i]
  have "inv_queue (settle (allocated st) (this_messageID st) outcome)"
    using i f assms(2) unfolding inv_queue_def
    by (auto simp: allocated_def promises_settle)
  moreover have "inv_flight (settle (allocated st) (this_messageID st) outcome)"
    using assms(1) by (simp add: queue_inv_def inv_flight_def allocated_def sent_of_def prior_of_def)
  moreover have "inv_wire (settle (allocated st) (this_messageID st) outcome)"
    using assms(1) by (simp add: queue_inv_def inv_wire_def allocated_def sent_of_def)
  ultimately show ?thesis by (simp add: queue_inv_def)
qed

lemma enqueued_fields:
  assumes "inv_queue st"
  shows "this_queue (enqueued st c) = this_queue st @ [this_messageID st]"
    "this_messageID (enqueued st c) = this_messageID st + 1"
    "promises (enqueued st c) = (promises st)(this_messageID st \<mapsto> Pending)"
    "controls (enqueued st c) = (controls st)(this_messageID st \<mapsto> c)"
    "sendData_calls (enqueued st c) = sendData_calls st"
    "settled (enqueued st c) = settled st"
    "inflight (enqueued st c) = inflight st"
    "emitted (enqueued st c) = emitted st"
  using fresh_id(1) [OF assms] by (simp_all add: enqueued_def allocated_def queue_set_def)

lemma sent_of_enqueued:
  "sent_of (enqueued st c) k = (if k = this_messageID st then sent c else sent_of st k)"
  by (simp add: enqueued_def allocated_def sent_of_def)

lemma prior_of_enqueued:
  "prior_of (enqueued st c) k = (if k = this_messageID st then captured_prior c else prior_of st k)"
  by (simp add: enqueued_def allocated_def prior_of_def)

lemma inv_queue_enqueued:
  assumes "inv_queue st"
  shows "inv_queue (enqueued st c)"
  using assms fresh_id [OF assms] unfolding inv_queue_def
  by (auto simp: enqueued_fields [OF assms])

lemma queue_inv_send':
  assumes "queue_inv st"
  shows "queue_inv (snd (send' st i p name a d))"
proof -
  from assms have "inv_queue st" by (simp add: queue_inv_def)
  note sc = send'_cases [OF fresh_id(1) [OF this], of i p name a d]
  show ?thesis
  proof (cases "make_sendingData (version st) (lib st)
             (serializeHeader (version st) (lib st) i name a (double_of_nat (this_messageID st))) d")
  case (Inl e)
  then show ?thesis using queue_inv_rejected [OF assms] by (simp add: sc)
next
  case (Inr frame)
  show ?thesis
  proof (cases "exceeds_maxPayload (version st) (this_maxPayload st) (length frame)")
    case True
    with Inr show ?thesis using queue_inv_rejected [OF assms] by (simp add: sc)
  next
    case False
    let ?m = "this_messageID st"
    let ?c = "\<lparr>data = frame, msgID = ?m, sent = False, captured_needACK = a, captured_prior = p\<rparr>"
    let ?st2 = "enqueued st ?c"
    from assms have i: "inv_queue st" and fl: "inv_flight st" and w: "inv_wire st"
      by (simp_all add: queue_inv_def)
    note f = fresh_id [OF i]
    note ef = enqueued_fields [OF i]
    have iq: "inv_queue ?st2" by (rule inv_queue_enqueued [OF i])
    have notsent: "\<not> sent_of st ?m" using f by (simp add: sent_of_def)
    have iw: "inv_wire ?st2"
      using w notsent unfolding inv_wire_def by (auto simp: ef sent_of_enqueued)
    show ?thesis
    proof (cases "p \<or> this_queue st = []")
      case False
      then have q: "this_queue st \<noteq> []" and np: "\<not> p" by simp_all
      have "inv_flight ?st2"
        using fl q f(1) notsent unfolding inv_flight_def
        by (auto simp: ef sent_of_enqueued prior_of_enqueued)
      moreover have "snd (send' st i p name a d) = ?st2"
        unfolding sc using Inr \<open>\<not> exceeds_maxPayload _ _ _\<close> False by simp
      ultimately show ?thesis using iq iw by (simp only: queue_inv_def simp_thms)
    next
      case True
      have e: "snd (send' st i p name a d) = control_send ?st2 ?m"
        unfolding sc using Inr \<open>\<not> exceeds_maxPayload _ _ _\<close> True by auto
      have "inv_queue (control_send ?st2 ?m)"
        using iq unfolding inv_queue_def by (simp add: control_send_controls)
      moreover have "inv_wire (control_send ?st2 ?m)"
        using iw unfolding inv_wire_def
        by (auto simp: wire_control_send sent_of_control_send ef sent_of_enqueued)
      moreover have "inv_flight (control_send ?st2 ?m)"
        using fl True f(1) notsent unfolding inv_flight_def
        by (cases "this_queue st = []")
          (auto simp: ef sent_of_control_send sent_of_enqueued prior_of_enqueued hd_append)
      ultimately show ?thesis by (simp add: e queue_inv_def)
    qed
  qed
  qed
qed


lemma queue_inv_replied:
  assumes "queue_inv st"
  shows "queue_inv (replied st h)"
  using queue_inv_send' [OF assms, of True True "ascii ''ack''" False "Array [messageID h]"]
    assms
  by (auto simp: replied_def sendInternal_def split: prod.splits)

lemma receiveData_eq:
  "receiveData st d =
     (case deserializeHeader (version st) (lib st) d of
        None \<Rightarrow> None
      | Some (Throws e) \<Rightarrow> Some (emit st (ErrorEvent e))
      | Some (Ok h) \<Rightarrow>
          let st1 = replied st h;
              rest = slice_from d (headerLength h)
          in if truthy (isInternal h) then
               (case deserialize_body (version st1) (lib st1) rest of
                  None \<Rightarrow> None
                | Some (Throws e) \<Rightarrow> Some (emit st1 (ErrorEvent e))
                | Some (Ok body') \<Rightarrow>
                    if messageName h = String (ascii ''ack'') then
                      (case queue_get st1 (nth_or_undefined body' 0) of
                         None \<Rightarrow> Some st1
                       | Some callback \<Rightarrow> Some (control_ack st1 callback None))
                    else Some st1)
             else if this_needDeserialize st1 then
               (case deserialize_body (version st1) (lib st1) rest of
                  None \<Rightarrow> None
                | Some (Throws e) \<Rightarrow> Some (emit st1 (ErrorEvent e))
                | Some (Ok body') \<Rightarrow> Some (emit st1 (MessageEvent (messageName h) (Deserialized body'))))
             else Some (emit st1 (MessageEvent (messageName h) (Raw rest))))"
  by (simp add: receiveData_def replied_def Let_def split: result.splits option.splits)

lemma queue_inv_receiveData:
  assumes "queue_inv st" "receiveData st d = Some st'"
  shows "queue_inv st'"
proof (cases "deserializeHeader (version st) (lib st) d")
  case None
  with assms show ?thesis by (simp add: receiveData_eq)
next
  case (Some r)
  show ?thesis
  proof (cases r)
    case (Ok h)
    have r: "queue_inv (replied st h)" by (rule queue_inv_replied [OF assms(1)])
    from assms(2) Some Ok show ?thesis
      unfolding receiveData_eq
      by (auto simp: Let_def r queue_inv_control_ack [OF r]
          split: if_splits result.splits option.splits)
  next
    case (Throws e)
    with assms Some show ?thesis by (auto simp: receiveData_eq)
  qed
qed

lemma queue_inv_close_loop:
  assumes "queue_inv st"
  shows "queue_inv (close_loop st items)"
  using assms
proof (induction items arbitrary: st)
  case Nil
  then show ?case by simp
next
  case (Cons item items)
  obtain r s where c: "control_cancel st item (Some ConnectionAborted) = (r, s)"
    by (cases "control_cancel st item (Some ConnectionAborted)")
  with queue_inv_control_cancel [OF Cons.prems, of item "Some ConnectionAborted"]
  have s: "queue_inv s" by simp
  then have "queue_inv (if r = False then control_ack s item (Some ConnectionAborted) else s)"
    by (simp add: queue_inv_control_ack)
  from Cons.IH [OF this] c show ?case by simp
qed

lemma queue_inv_new: "queue_inv (new_BaseSocket ver lib' nd mp)"
  by (simp add: new_BaseSocket_def queue_inv_def inv_queue_def inv_flight_def inv_wire_def
      sent_of_def)

lemma queue_inv_fire:
  assumes "queue_inv st" "fire st act = Some st'"
  shows "queue_inv st'"
proof (cases act)
  case (Send name d a p)
  with assms queue_inv_send' [OF assms(1), of False p name a d] show ?thesis
    by (auto simp: send_def)
next
  case (Cancel k err)
  with assms queue_inv_cancel [OF assms(1), of k err] show ?thesis by auto
next
  case (ReceiveData d)
  with assms queue_inv_receiveData [OF assms(1), of d st'] show ?thesis by simp
next
  case (SendDataSettled k r)
  with assms queue_inv_sendData_settled [OF assms(1), of k r] show ?thesis by auto
next
  case Close
  with assms queue_inv_close_loop [OF assms(1), of "rev (this_queue st)"] show ?thesis
    by (auto simp: on_close_def)
qed

lemma reachable_queue_inv:
  assumes "reachable st"
  shows "queue_inv st"
  using assms
  by (induction rule: reachable.induct) (auto intro: queue_inv_new queue_inv_fire)


section \<open>The send queue: cancelling\<close>

lemma reachable_greeted: "reachable greeted"
  unfolding greeted_def
  by (rule reachable.step [OF reachable.init, where a = "Send (ascii ''greet'') (Array [String (ascii ''hi''), Number (double_of_nat 42), Boolean True]) True False"]) simp

lemma reachable_greeted_twice: "reachable greeted_twice"
  unfolding greeted_twice_def
  by (rule reachable.step [OF reachable_greeted, where a = "Send (ascii ''second'') (Array []) True False"]) simp

lemma greeted_queue:
  "this_queue greeted = [0]" "sent_of greeted 0" "this_messageID greeted = Suc 0"
  "promises greeted 0 = Some Pending" "settled greeted = []"
  by (simp_all add: greeted_def send_def send'_def new_BaseSocket_def make_sendingData_def
      exceeds_maxPayload_def queue_set_def control_send_def sent_of_def Let_def)

lemma greeted_twice_queue:
  "this_queue greeted_twice = [0, Suc 0]" "sent_of greeted_twice 0"
  "\<not> sent_of greeted_twice (Suc 0)"
  "promises greeted_twice (Suc 0) = Some Pending" "settled greeted_twice = []"
  "fst ` set (sendData_calls greeted_twice) = {0}"
  by (simp_all add: greeted_twice_def greeted_def send_def send'_def new_BaseSocket_def
      make_sendingData_def exceeds_maxPayload_def queue_set_def control_send_def sent_of_def Let_def)

lemma cancel_eq:
  assumes "queue_inv st"
  shows "cancel st k err =
           (if k \<in> set (this_queue st) \<and> \<not> sent_of st k then (True, removed st k err)
            else (False, st))"
  using assms
  by (auto simp: cancel_def control_cancel_eq queue_inv_def inv_queue_def)

lemma removed_queued:
  assumes "queue_inv st" "k \<in> set (this_queue st)"
  shows "promises (removed st k err) = (promises st)(k \<mapsto> outcome_of err)"
    and "settled (removed st k err) = settled st @ [(k, outcome_of err)]"
    and "k \<notin> set (this_queue (removed st k err))"
  using assms
  by (auto simp: promises_removed settled_removed removed_fields queue_inv_def inv_queue_def)


section \<open>The send queue: closing\<close>

lemma close_step:
  assumes "queue_inv st" "this_queue st = q @ [k]"
  shows "(case control_cancel st k (Some e) of
            (result, s) \<Rightarrow> if result = False then control_ack s k (Some e) else s)
         = removed st k (Some e)"
proof (cases "sent_of st k")
  case False
  moreover from assms have "controls st k \<noteq> None" by (auto simp: queue_inv_def inv_queue_def)
  ultimately show ?thesis by (simp add: control_cancel_eq)
next
  case True
  from assms have d: "distinct (q @ [k])" by (auto simp: queue_inv_def inv_queue_def)
  have "\<not> (hd (q @ [k]) = k \<and> removeAll k (q @ [k]) \<noteq> [])"
  proof (cases q)
    case Nil
    then show ?thesis by simp
  next
    case (Cons x xs)
    with d have "x \<noteq> k" by auto
    with Cons show ?thesis by simp
  qed
  then have "control_ack st k (Some e) = removed st k (Some e)"
    using assms(2) by (auto simp: control_ack_eq removed_def Let_def)
  with True show ?thesis by (simp add: control_cancel_eq)
qed

lemma close_loop_rev:
  assumes "queue_inv st" "this_queue st = q"
  shows "this_queue (close_loop st (rev q)) = []
         \<and> settled (close_loop st (rev q))
             = settled st @ map (\<lambda>k. (k, Rejected ConnectionAborted)) (rev q)
         \<and> promises (close_loop st (rev q))
             = (\<lambda>k. if k \<in> set q then Some (Rejected ConnectionAborted) else promises st k)
         \<and> sendData_calls (close_loop st (rev q)) = sendData_calls st
         \<and> controls (close_loop st (rev q)) = controls st"
  using assms
proof (induction q arbitrary: st rule: rev_induct)
  case Nil
  then show ?case by simp
next
  case (snoc k q)
  let ?e = "Some ConnectionAborted"
  let ?st1 = "removed st k ?e"
  have step: "close_loop st (rev (q @ [k])) = close_loop ?st1 (rev q)"
    using close_step [OF snoc.prems, of ConnectionAborted]
    by (auto split: prod.splits)
  from snoc.prems have d: "distinct (q @ [k])" and kin: "k \<in> set (this_queue st)"
    by (auto simp: queue_inv_def inv_queue_def)
  have inv1: "queue_inv ?st1"
  proof -
    have "queue_inv (snd (control_cancel st k ?e))"
      by (rule queue_inv_control_cancel [OF snoc.prems(1)])
    then have "queue_inv (case control_cancel st k ?e of
                 (result, s) \<Rightarrow> if result = False then control_ack s k ?e else s)"
      by (auto simp: queue_inv_control_ack split: prod.splits)
    then show ?thesis
      using close_step [OF snoc.prems, of ConnectionAborted] by simp
  qed
  have q1: "this_queue ?st1 = q"
    using d snoc.prems(2) by (simp add: removed_fields)
  note r = removed_queued [OF snoc.prems(1) kin, of ?e]
  from snoc.IH [OF inv1 q1] d
  show ?case
    unfolding step
    by (auto simp: r(1,2) removed_fields outcome_of_def fun_eq_iff)
qed


section \<open>The send queue: settling an entry\<close>

lemma control_ack_queued:
  assumes "queue_inv st" "k \<in> set (this_queue st)"
  shows "promises (control_ack st k err) = (promises st)(k \<mapsto> outcome_of err)"
    and "this_queue (control_ack st k err) = removeAll k (this_queue st)"
    and "settled (control_ack st k err) = settled st @ [(k, outcome_of err)]"
    and "k \<notin> set (this_queue (control_ack st k err))"
  using removed_queued [OF assms, of err]
  by (simp_all add: control_ack_eq Let_def removed_def [symmetric] removed_fields)

lemma control_ack_twice:
  assumes "queue_inv st"
  shows "control_ack (control_ack st k err) k err' = control_ack st k err"
proof -
  have i: "queue_inv (control_ack st k err)" by (rule queue_inv_control_ack [OF assms])
  have "k \<notin> set (this_queue (control_ack st k err))"
    by (simp add: control_ack_eq Let_def removed_def [symmetric] removed_fields)
  with i show ?thesis by (intro control_ack_absent) (simp_all add: queue_inv_def)
qed

lemma control_ack_head:
  assumes "queue_inv st" "this_queue st \<noteq> []" "hd (this_queue st) = k" "tl (this_queue st) \<noteq> []"
  shows "control_ack st k err = control_send (removed st k err) (hd (tl (this_queue st)))"
proof -
  from assms have "distinct (this_queue st)" by (simp add: queue_inv_def inv_queue_def)
  with assms(2,3) have "removeAll k (this_queue st) = tl (this_queue st)"
    using removeAll_hd [of "this_queue st"] by auto
  with assms show ?thesis by (simp add: control_ack_eq removed_def)
qed

lemma control_ack_not_head:
  assumes "this_queue st = [] \<or> hd (this_queue st) \<noteq> k \<or> tl (this_queue st) = []"
    and "distinct (this_queue st)"
  shows "control_ack st k err = removed st k err"
proof (cases "this_queue st \<noteq> [] \<and> hd (this_queue st) = k")
  case True
  with assms have "tl (this_queue st) = []" by auto
  with True assms(2) have "removeAll k (this_queue st) = []"
    using removeAll_hd [of "this_queue st"] by auto
  then show ?thesis by (simp add: control_ack_eq removed_def)
next
  case False
  then show ?thesis by (auto simp: control_ack_eq removed_def)
qed

lemma tl_in_queue: "q \<noteq> [] \<Longrightarrow> tl q \<noteq> [] \<Longrightarrow> hd (tl q) \<in> set q \<and> hd (tl q) \<noteq> hd q \<or> \<not> distinct q"
  by (cases q) auto

lemma sent_by_control_ack:
  assumes "queue_inv st" "\<not> sent_of st k" "sent_of (control_ack st j err) k"
  shows "this_queue st \<noteq> [] \<and> hd (this_queue st) = j \<and> tl (this_queue st) \<noteq> []
         \<and> k = hd (tl (this_queue st)) \<and> this_queue (control_ack st j err) = tl (this_queue st)
         \<and> sendData_calls (control_ack st j err)
             = sendData_calls st @ [(k, data (the (controls st k)))]"
proof -
  from assms(1) have d: "distinct (this_queue st)" by (simp add: queue_inv_def inv_queue_def)
  have h: "this_queue st \<noteq> [] \<and> hd (this_queue st) = j \<and> tl (this_queue st) \<noteq> []"
  proof (rule ccontr)
    assume "\<not> ?thesis"
    then have "control_ack st j err = removed st j err"
      using d by (intro control_ack_not_head) auto
    with assms(2,3) show False by (simp add: removed_fields)
  qed
  then have e: "control_ack st j err = control_send (removed st j err) (hd (tl (this_queue st)))"
    using control_ack_head [OF assms(1)] by simp
  from h d have t: "removeAll j (this_queue st) = tl (this_queue st)"
    using removeAll_hd [of "this_queue st"] by auto
  from assms(2,3) have k: "k = hd (tl (this_queue st))" "controls st k \<noteq> None"
    unfolding e by (auto simp: sent_of_control_send removed_fields)
  from k(2) assms(2) obtain c where c: "controls st k = Some c" "\<not> sent c"
    by (auto simp: sent_of_def)
  show ?thesis
    using h k(1) c unfolding e
    by (simp add: removed_fields t sendData_calls_control_send)
qed

lemma unsent_by_control_ack:
  assumes "distinct (this_queue st)" "this_queue st = [] \<or> hd (this_queue st) \<noteq> k"
  shows "sendData_calls (control_ack st k err) = sendData_calls st"
    and "sent_of (control_ack st k err) = sent_of st"
proof -
  have "control_ack st k err = removed st k err"
    using assms by (intro control_ack_not_head) auto
  then show "sendData_calls (control_ack st k err) = sendData_calls st"
    and "sent_of (control_ack st k err) = sent_of st"
    by (simp_all add: removed_fields)
qed


section \<open>The send queue: sending\<close>

lemma send'_accepted:
  assumes "queue_inv st"
    and "make_sendingData (version st) (lib st)
           (serializeHeader (version st) (lib st) i name a (double_of_nat (this_messageID st))) d
         = Inr frame"
    and "\<not> exceeds_maxPayload (version st) (this_maxPayload st) (length frame)"
  shows "this_queue (snd (send' st i p name a d)) = this_queue st @ [this_messageID st]"
    and "sent_of (snd (send' st i p name a d)) k
         \<longleftrightarrow> (if k = this_messageID st then p \<or> this_queue st = [] else sent_of st k)"
    and "sendData_calls (snd (send' st i p name a d))
         = (if p \<or> this_queue st = [] then sendData_calls st @ [(this_messageID st, frame)]
            else sendData_calls st)"
    and "promises (snd (send' st i p name a d)) = (promises st)(this_messageID st \<mapsto> Pending)"
    and "settled (snd (send' st i p name a d)) = settled st"
proof -
  from assms(1) have iq: "inv_queue st" by (simp add: queue_inv_def)
  note f = fresh_id [OF iq]
  let ?m = "this_messageID st"
  let ?c = "\<lparr>data = frame, msgID = ?m, sent = False, captured_needACK = a, captured_prior = p\<rparr>"
  let ?st2 = "enqueued st ?c"
  have e: "snd (send' st i p name a d)
           = (if p \<or> this_queue st = [] then control_send ?st2 ?m else ?st2)"
    unfolding send'_cases [OF f(1)] using assms(2,3) by (simp add: Let_def)
  note ef = enqueued_fields [OF iq]
  show "this_queue (snd (send' st i p name a d)) = this_queue st @ [?m]"
    unfolding e by (simp add: ef)
  show "sent_of (snd (send' st i p name a d)) k
         \<longleftrightarrow> (if k = ?m then p \<or> this_queue st = [] else sent_of st k)"
    unfolding e by (auto simp: sent_of_control_send sent_of_enqueued ef)
  show "sendData_calls (snd (send' st i p name a d))
         = (if p \<or> this_queue st = [] then sendData_calls st @ [(?m, frame)]
            else sendData_calls st)"
    unfolding e by (simp add: sendData_calls_control_send ef)
  show "promises (snd (send' st i p name a d)) = (promises st)(?m \<mapsto> Pending)"
    unfolding e by (simp add: ef)
  show "settled (snd (send' st i p name a d)) = settled st"
    unfolding e by (simp add: ef)
qed

lemma sent_of_allocated [simp]: "sent_of (allocated st) = sent_of st"
  by (simp add: allocated_def sent_of_def fun_eq_iff)

lemma send'_old_entries:
  assumes "queue_inv st" "k \<noteq> this_messageID st"
  shows "sent_of (snd (send' st i p name a d)) k \<longleftrightarrow> sent_of st k"
    and "promises (snd (send' st i p name a d)) k = promises st k"
    and "k \<in> set (this_queue (snd (send' st i p name a d))) \<longleftrightarrow> k \<in> set (this_queue st)"
    and "this_queue st \<noteq> [] \<Longrightarrow>
         hd (this_queue (snd (send' st i p name a d))) = hd (this_queue st)"
proof -
  from assms(1) have iq: "inv_queue st" by (simp add: queue_inv_def)
  note f = fresh_id [OF iq]
  note sc = send'_cases [OF f(1), of i p name a d]
  have ef: "\<And>c. this_queue (enqueued st c) = this_queue st @ [this_messageID st]"
    "\<And>c. promises (enqueued st c) = (promises st)(this_messageID st \<mapsto> Pending)"
    by (simp_all add: enqueued_fields [OF iq])
  show "sent_of (snd (send' st i p name a d)) k \<longleftrightarrow> sent_of st k"
    unfolding sc using assms(2)
    by (auto simp: Let_def sent_of_control_send sent_of_enqueued split: sum.splits)
  show "promises (snd (send' st i p name a d)) k = promises st k"
    unfolding sc using assms(2)
    by (auto simp: Let_def ef promises_settle allocated_def split: sum.splits)
  show "k \<in> set (this_queue (snd (send' st i p name a d))) \<longleftrightarrow> k \<in> set (this_queue st)"
    unfolding sc using assms(2)
    by (auto simp: Let_def ef allocated_def split: sum.splits)
  show "hd (this_queue (snd (send' st i p name a d))) = hd (this_queue st)"
    if "this_queue st \<noteq> []"
    unfolding sc using that
    by (auto simp: Let_def ef allocated_def split: sum.splits)
qed

lemma queued_below:
  assumes "queue_inv st" "k \<in> set (this_queue st)"
  shows "k \<noteq> this_messageID st"
  using assms fresh_id(1) [of st] by (auto simp: queue_inv_def)

lemma replied_old_entries:
  assumes "queue_inv st" "k \<noteq> this_messageID st"
  shows "sent_of (replied st h) k \<longleftrightarrow> sent_of st k"
    and "promises (replied st h) k = promises st k"
    and "k \<in> set (this_queue (replied st h)) \<longleftrightarrow> k \<in> set (this_queue st)"
    and "this_queue st \<noteq> [] \<Longrightarrow> hd (this_queue (replied st h)) = hd (this_queue st)"
proof -
  have c: "sent_of (catch_emit_error s j) = sent_of s"
    "promises (catch_emit_error s j) = promises s"
    "this_queue (catch_emit_error s j) = this_queue s" for s j
    by (simp_all add: catch_emit_error_def emit_def sent_of_def fun_eq_iff
        split: option.splits promise.splits)
  note s = send'_old_entries [OF assms, of True True "ascii ''ack''" False "Array [messageID h]"]
  show "sent_of (replied st h) k \<longleftrightarrow> sent_of st k"
    using s(1) by (auto simp: replied_def sendInternal_def c split: prod.splits)
  show "promises (replied st h) k = promises st k"
    using s(2) by (auto simp: replied_def sendInternal_def c split: prod.splits)
  show "k \<in> set (this_queue (replied st h)) \<longleftrightarrow> k \<in> set (this_queue st)"
    using s(3) by (auto simp: replied_def sendInternal_def c split: prod.splits)
  show "hd (this_queue (replied st h)) = hd (this_queue st)" if "this_queue st \<noteq> []"
    using s(4) [OF that] by (auto simp: replied_def sendInternal_def c split: prod.splits)
qed

lemma sent_as_head_control_ack:
  assumes "queue_inv st" "k \<in> set (this_queue st)" "\<not> sent_of st k"
    "sent_of (control_ack st j err) k"
  shows "sent_as_head st (control_ack st j err) k"
proof -
  note s = sent_by_control_ack [OF assms(1,3,4)]
  from assms(1) have d: "distinct (this_queue st)" by (simp add: queue_inv_def inv_queue_def)
  from s have jq: "j \<in> set (this_queue st)" by auto
  have "hd (this_queue st) \<notin> set (tl (this_queue st))"
    using d s by (cases "this_queue st") auto
  moreover have "promises (control_ack st j err) (hd (this_queue st)) \<noteq> Some Pending"
    using control_ack_queued(1) [OF assms(1) jq, of err] s by simp
  ultimately show ?thesis using s by (simp add: sent_as_head_def)
qed

lemma sent_of_emit [simp]: "sent_of (emit st ev) = sent_of st"
  by (simp add: emit_def sent_of_def fun_eq_iff)

lemma waits_until_head:
  assumes "queue_inv st" "k \<in> set (this_queue st)" "\<not> sent_of st k"
    and "fire st act = Some st'" "sent_of st' k"
  shows "sent_as_head st st' k"
proof (cases act)
  case (Send name d a p)
  with assms send'_old_entries(1) [OF assms(1) queued_below [OF assms(1,2)], of False p name a d]
  show ?thesis by (auto simp: send_def)
next
  case (Cancel j err)
  with assms show ?thesis
    by (auto simp: cancel_eq [OF assms(1)] removed_fields split: if_splits)
next
  case (SendDataSettled j r)
  let ?st1 = "st\<lparr>inflight := removeAll j (inflight st)\<rparr>"
  have i1: "queue_inv ?st1" using assms(1) by simp
  have f: "this_queue ?st1 = this_queue st" "sent_of ?st1 = sent_of st"
    "promises ?st1 = promises st"
    by (simp_all add: sent_of_def fun_eq_iff)
  have "sent_as_head ?st1 (control_ack ?st1 j err) k" if "sent_of (control_ack ?st1 j err) k" for err
    using sent_as_head_control_ack [OF i1 _ _ that] assms(2,3) by (simp add: f)
  then have "sent_as_head st (control_ack ?st1 j err) k" if "sent_of (control_ack ?st1 j err) k" for err
    using that by (simp add: sent_as_head_def)
  with assms SendDataSettled show ?thesis
    by (auto simp: sendData_settled_def Let_def f split: if_splits option.splits)
next
  case Close
  have "controls (on_close st) = controls st"
    using close_loop_rev [OF assms(1) refl] by (simp add: on_close_def)
  then have "sent_of (on_close st) = sent_of st" by (simp add: sent_of_def fun_eq_iff)
  with assms Close show ?thesis by auto
next
  case (ReceiveData d)
  show ?thesis
  proof (cases "deserializeHeader (version st) (lib st) d")
    case None
    with assms ReceiveData show ?thesis by (simp add: receiveData_eq)
  next
    case (Some res)
    show ?thesis
    proof (cases res)
    case (Ok h)
    let ?st1 = "replied st h"
    have i1: "queue_inv ?st1" by (rule queue_inv_replied [OF assms(1)])
    note r = replied_old_entries [OF assms(1) queued_below [OF assms(1,2)], of h]
    from assms(2) have ne: "this_queue st \<noteq> []" by auto
    from ne have hq: "hd (this_queue st) \<in> set (this_queue st)" by simp
    note rh = replied_old_entries [OF assms(1) queued_below [OF assms(1) hq], of h]
    have k1: "k \<in> set (this_queue ?st1)" "\<not> sent_of ?st1 k"
      using r assms(2,3) by simp_all
    have "sent_as_head st (control_ack ?st1 j None) k" if "sent_of (control_ack ?st1 j None) k" for j
      using sent_as_head_control_ack [OF i1 k1 that] rh(4) [OF ne]
      by (simp add: sent_as_head_def)
    with assms(4,5) ReceiveData Some Ok k1(2) show ?thesis
      by (auto simp: receiveData_eq Let_def split: if_splits result.splits option.splits)
  next
    case (Throws e)
    with assms ReceiveData Some show ?thesis by (auto simp: receiveData_eq)
  qed
  qed
qed

lemma greeted_twice_write_failed:
  "sent_of (sendData_settled greeted_twice 0 (Some (WriteFailed 0))) (Suc 0)"
  "this_queue (sendData_settled greeted_twice 0 (Some (WriteFailed 0))) = [Suc 0]"
  "promises (sendData_settled greeted_twice 0 (Some (WriteFailed 0))) 0
     = Some (Rejected (WriteFailed 0))"
  by (simp_all add: greeted_twice_def greeted_def send_def send'_def new_BaseSocket_def
      make_sendingData_def exceeds_maxPayload_def queue_set_def control_send_def sent_of_def
      sendData_settled_def control_ack_def reject_or_resolve_def settle_def Let_def)


section \<open>The send queue: acknowledgements\<close>

lemma replied_pending:
  assumes "queue_inv st" "promises st j = Some Pending"
  shows "promises (replied st h) j = Some Pending" "j \<in> set (this_queue (replied st h))"
proof -
  from assms have jq: "j \<in> set (this_queue st)" by (simp add: queue_inv_def inv_queue_def)
  note r = replied_old_entries [OF assms(1) queued_below [OF assms(1) jq], of h]
  from r(2) assms(2) show "promises (replied st h) j = Some Pending" by simp
  from r(3) jq show "j \<in> set (this_queue (replied st h))" by simp
qed

lemma replied_unchanged: "\<not> truthy (needACK h) \<Longrightarrow> replied st h = st"
  by (simp add: replied_def)

lemma receiveData_ack:
  assumes "deserializeHeader (version st) (lib st) frame = Some (Ok h)"
    and "truthy (isInternal h)" "messageName h = String (ascii ''ack'')"
    and "deserialize_body (version st) (lib st) (slice_from frame (headerLength h))
         = Some (Ok body')"
    and "nth_or_undefined body' 0 = Number x" "to_index x = Some m"
  shows "receiveData st frame =
           Some (if m \<in> set (this_queue (replied st h)) then control_ack (replied st h) m None
                 else replied st h)"
proof -
  have v: "version (replied st h) = version st" "lib (replied st h) = lib st"
    by (auto simp: replied_def sendInternal_def send'_def Let_def catch_emit_error_def emit_def
        split: prod.splits sum.splits option.splits promise.splits)
  show ?thesis
    using assms by (simp add: receiveData_eq Let_def v queue_get_def)
qed

lemma ack_name: "well_formed (ascii ''ack'')" "length (Buffer_from (ascii ''ack'')) = 3"
  by (simp_all add: ascii_def high_surrogate_def low_surrogate_def utf8_def)

lemma ack_frame_decoded:
  assumes "m < 2 ^ 53"
  shows "deserializeHeader Old own_codec (ack_frame m)
         = Some (Ok \<lparr>isInternal = Boolean True, messageName = String (ascii ''ack''),
               needACK = Boolean False, messageID = Number (double_of_nat 7),
               headerLength = double_of_nat 29\<rparr>)"
    and "deserialize_body Old own_codec (slice_from (ack_frame m) (double_of_nat 29))
         = Some (Ok [Number (double_of_nat m)])"
    and "to_index (double_of_nat m) = Some m"
proof -
  show "deserializeHeader Old own_codec (ack_frame m)
         = Some (Ok \<lparr>isInternal = Boolean True, messageName = String (ascii ''ack''),
               needACK = Boolean False, messageID = Number (double_of_nat 7),
               headerLength = double_of_nat 29\<rparr>)"
    unfolding ack_frame_def
    using deserializeHeader_Old [of "ascii ''ack''" own_codec True False "double_of_nat 7"]
    by (simp add: ack_name)
  have "slice_from (ack_frame m) (double_of_nat 29) = serialize [Number (double_of_nat m)]"
    unfolding ack_frame_def
    using slice_from_header [of "serializeHeader Old own_codec True (ascii ''ack'') False (double_of_nat 7)"
        "serialize [Number (double_of_nat m)]"]
    by (simp add: length_serializeHeader_Old ack_name)
  moreover have "deserialize no_json (serialize [Number (double_of_nat m)])
                 = Some (Ok [Number (double_of_nat m)])"
    by (rule deserialize_serialize_items) (simp_all add: serialize_def)
  ultimately show "deserialize_body Old own_codec (slice_from (ack_frame m) (double_of_nat 29))
         = Some (Ok [Number (double_of_nat m)])"
    by (simp add: deserialize_body_def own_codec_def)
  show "to_index (double_of_nat m) = Some m"
    by (rule to_index_double_of_nat [OF assms])
qed

lemma greeted_version: "version greeted = Old" "lib greeted = own_codec"
  by (simp_all add: greeted_def send_def send'_def new_BaseSocket_def make_sendingData_def
      exceeds_maxPayload_def queue_set_def control_send_def Let_def)


section \<open>The claims about the value codec\<close>




text \<open>
  Claim C2, as the code has it. The claim is made for every sequence of values. A string
  reaches the buffer through \<^verbatim>\<open>Buffer.from\<close>, which writes U+FFFD for a surrogate that
  has no partner: the string of the one code unit D800 comes back as the string of the one
  code unit FFFD.
\<close>

theorem lone_surrogate_not_restored:
  "deserialize no_json (serialize [String [0xD800]]) = Some (Ok [String [0xFFFD]])
   \<and> [String [0xFFFD]] \<noteq> [String [0xD800]]"
  using lone_surrogate by simp

text \<open>
  Claim C2, amended: for every sequence of values of the variants Number, String, Boolean,
  Null, Undefined and Binary in which no string has a surrogate without its partner (and
  whose encoding is shorter than \<open>2 ^ 53\<close> bytes, as every Buffer is), decoding the encoded
  sequence returns, and gives the sequence back: the same bytes for a Binary, the same code
  units for a String, the same bit pattern for a Number, the same truth value, and Null and
  Undefined as they were.
\<close>

theorem deserialize_serialize:
  assumes "list_all binary_item items" "length (serialize items) < 2 ^ 53"
  shows "deserialize parse (serialize items) = Some (Ok items)"
  by (rule deserialize_serialize_items [OF assms])

theorem deserialize_serialize_witness:
  "list_all binary_item
     [Number 7, String [0x68, 0xE9, 0x4F60, 0xD83D, 0xDE00], Boolean True, Null, Undefined,
      Buffer [1, 2, 3]]
   \<and> deserialize no_json
        (serialize [Number 7, String [0x68, 0xE9, 0x4F60, 0xD83D, 0xDE00], Boolean True, Null,
                    Undefined, Buffer [1, 2, 3]])
       = Some (Ok [Number 7, String [0x68, 0xE9, 0x4F60, 0xD83D, 0xDE00], Boolean True, Null,
                   Undefined, Buffer [1, 2, 3]])"
proof -
  let ?items = "[Number 7, String [0x68, 0xE9, 0x4F60, 0xD83D, 0xDE00], Boolean True, Null,
                 Undefined, Buffer [1, 2, 3]]"
  have w: "list_all binary_item ?items"
    by (simp add: high_surrogate_def low_surrogate_def)
  have "length (serialize ?items) < 100"
    by (simp add: serialize_def high_surrogate_def low_surrogate_def utf8_def)
  then have l: "length (serialize ?items) < 2 ^ 53" by simp
  from deserialize_serialize [OF w l, of no_json] w show ?thesis by simp
qed

section \<open>The claims about the header codec\<close>

text \<open>
  Claim C9, as the code has it. The claim says that the length \<^verbatim>\<open>_deserializeHeader\<close>
  returns is the value of the prefix field plus the 8 bytes of the field. In the old version
  the field already counts its own 8 bytes, and the length returned is the value of the
  field: 27 for the header of a message named \<^verbatim>\<open>x\<close>, not 35. The claim also says that
  every header comes back as it was: in the old version the name goes through
  \<^verbatim>\<open>Buffer.from\<close> and \<^verbatim>\<open>toString\<close>, and the name of the one code unit D800 comes back
  as the code unit FFFD.
\<close>

theorem old_header_length_is_prefix:
  "deserializeHeader Old own_codec (serializeHeader Old own_codec False (ascii ''x'') True 0)
     = Some (Ok \<lparr>isInternal = Boolean False, messageName = String (ascii ''x''),
           needACK = Boolean True, messageID = Number 0, headerLength = double_of_nat 27\<rparr>)
   \<and> readDoubleBE (serializeHeader Old own_codec False (ascii ''x'') True 0) 0
       = Ok (double_of_nat 27)
   \<and> js_add 8 (double_of_nat 27) = double_of_nat 35
   \<and> to_index (double_of_nat 27) = Some 27 \<and> to_index (double_of_nat 35) = Some 35
   \<and> deserializeHeader Old own_codec (serializeHeader Old own_codec False [0xD800] True 0)
     = Some (Ok \<lparr>isInternal = Boolean False, messageName = String [0xFFFD],
           needACK = Boolean True, messageID = Number 0, headerLength = double_of_nat 29\<rparr>)"
proof -
  have x: "well_formed (ascii ''x'')" "length (Buffer_from (ascii ''x'')) = 1"
    by (simp_all add: ascii_def high_surrogate_def low_surrogate_def utf8_def)
  have s: "Buffer_from [0xD800] = [0xEF, 0xBF, 0xBD]" "toString [0xEF, 0xBF, 0xBD] = [0xFFFD]"
    by (simp_all add: high_surrogate_def utf8_def toString_def utf8_lead_def code_units_def)
  have j: "js_add 8 (double_of_nat 27) = double_of_nat (8 + 27)"
    by (rule js_add_double_of_nat) simp
  have t: "to_index (double_of_nat 27) = Some 27" "to_index (double_of_nat 35) = Some 35"
    by (rule to_index_double_of_nat, simp)+
  from deserializeHeader_Old [of "ascii ''x''" own_codec False True 0 "[]"]
    prefix_Old [of own_codec False "ascii ''x''" True 0 "[]"]
    deserializeHeader_Old_bytes [of "[0xD800]" own_codec False True 0 "[]"] j t
  show ?thesis
    by (simp add: x s del: Buffer_from.simps)
qed

text \<open>
  Claim C9, amended. In the old version, for every header (isInternal, needAck, messageId,
  messageName) whose name has no surrogate without its partner, decoding the encoded header
  followed by any body gives the four fields back, and the length returned is the exact
  offset at which the body begins (the length of the encoded header); it is the value of
  the prefix field itself, which counts its own 8 bytes. In the canonical version the four
  fields are encoded by the package \<^verbatim>\<open>object2buffer\<close>, which is not part of the
  repository: whenever the package decodes the four fields it encoded, decoding the encoded
  header gives the four fields back, and the length returned is the exact offset at which
  the body begins; there it is the value of the prefix field plus the 8 bytes of the field.
  (Both for headers shorter than \<open>2 ^ 53\<close> bytes, as every Buffer is.)
\<close>

theorem header_round_trip:
  "(well_formed name \<and> length (Buffer_from name) + 26 < 2 ^ 53 \<longrightarrow>
      (let frame = serializeHeader Old lib' i name a m @ rest
       in case deserializeHeader Old lib' frame of
            Some (Ok h) \<Rightarrow>
              isInternal h = Boolean i \<and> messageName h = String name \<and> needACK h = Boolean a
              \<and> messageID h = Number m
              \<and> to_index (headerLength h) = Some (length (serializeHeader Old lib' i name a m))
              \<and> slice_from frame (headerLength h) = rest
              \<and> readDoubleBE frame 0 = Ok (headerLength h)
          | _ \<Rightarrow> False))
   \<and> (length (object2buffer_serialize lib' [Boolean i, Boolean a, Number m, String name]) + 8
          < 2 ^ 53
        \<and> object2buffer_deserialize lib'
            (object2buffer_serialize lib' [Boolean i, Boolean a, Number m, String name])
          = Some (Ok [Boolean i, Boolean a, Number m, String name]) \<longrightarrow>
      (let frame = serializeHeader Canonical lib' i name a m @ rest
       in case deserializeHeader Canonical lib' frame of
            Some (Ok h) \<Rightarrow>
              isInternal h = Boolean i \<and> messageName h = String name \<and> needACK h = Boolean a
              \<and> messageID h = Number m
              \<and> to_index (headerLength h)
                  = Some (length (serializeHeader Canonical lib' i name a m))
              \<and> slice_from frame (headerLength h) = rest
              \<and> (case readDoubleBE frame 0 of
                    Ok prefix' \<Rightarrow> headerLength h = js_add 8 prefix'
                  | Throws e \<Rightarrow> False)
          | _ \<Rightarrow> False))"
  using header_round_trip_Old [of name lib' i a m rest]
    header_round_trip_Canonical [of lib' i a m name rest]
  by blast

theorem header_round_trip_witness:
  "(case deserializeHeader Old own_codec
           (serializeHeader Old own_codec True [0x68, 0xE9, 0x4F60, 0xD83D, 0xDE00] False 0 @ [3]) of
      Some (Ok h) \<Rightarrow>
        messageName h = String [0x68, 0xE9, 0x4F60, 0xD83D, 0xDE00]
        \<and> to_index (headerLength h) = Some 36
        \<and> slice_from (serializeHeader Old own_codec True [0x68, 0xE9, 0x4F60, 0xD83D, 0xDE00] False 0
                         @ [3]) (headerLength h) = [3]
    | _ \<Rightarrow> False)
   \<and> (case deserializeHeader Canonical own_codec
              (serializeHeader Canonical own_codec True (ascii ''ack'') False 0 @ [3]) of
        Some (Ok h) \<Rightarrow>
          messageName h = String (ascii ''ack'')
          \<and> slice_from (serializeHeader Canonical own_codec True (ascii ''ack'') False 0 @ [3])
                (headerLength h) = [3]
      | _ \<Rightarrow> False)"
proof -
  let ?name = "[0x68, 0xE9, 0x4F60, 0xD83D, 0xDE00] :: jsstring"
  have w: "well_formed ?name" by (simp add: high_surrogate_def low_surrogate_def)
  have l: "length (Buffer_from ?name) = 10"
    by (simp add: high_surrogate_def low_surrogate_def utf8_def)
  have o: "well_formed ?name \<and> length (Buffer_from ?name) + 26 < 2 ^ 53"
    using w by (simp only: l) simp
  have c: "length (object2buffer_serialize own_codec
                     [Boolean True, Boolean False, Number 0, String (ascii ''ack'')]) + 8 < 2 ^ 53
           \<and> object2buffer_deserialize own_codec
               (object2buffer_serialize own_codec
                  [Boolean True, Boolean False, Number 0, String (ascii ''ack'')])
             = Some (Ok [Boolean True, Boolean False, Number 0, String (ascii ''ack'')])"
    using own_codec_round_trip [of "ascii ''ack''" True False 0] by (simp add: ack_name)
  have 1: "case deserializeHeader Old own_codec
                  (serializeHeader Old own_codec True ?name False 0 @ [3]) of
             Some (Ok h) \<Rightarrow>
               messageName h = String ?name
               \<and> to_index (headerLength h) = Some 36
               \<and> slice_from (serializeHeader Old own_codec True ?name False 0 @ [3])
                     (headerLength h) = [3]
           | _ \<Rightarrow> False"
    using header_round_trip [where name = ?name and lib' = own_codec and i = True and a = False
        and m = 0 and rest = "[3]", THEN conjunct1, THEN mp, OF o]
    by (simp add: Let_def length_serializeHeader_Old l del: Buffer_from.simps
        split: option.splits result.splits)
  have 2: "case deserializeHeader Canonical own_codec
                  (serializeHeader Canonical own_codec True (ascii ''ack'') False 0 @ [3]) of
             Some (Ok h) \<Rightarrow>
               messageName h = String (ascii ''ack'')
               \<and> slice_from (serializeHeader Canonical own_codec True (ascii ''ack'') False 0 @ [3])
                     (headerLength h) = [3]
           | _ \<Rightarrow> False"
    using header_round_trip [where name = "ascii ''ack''" and lib' = own_codec and i = True
        and a = False and m = 0 and rest = "[3]", THEN conjunct2, THEN mp, OF c]
    by (simp add: Let_def split: option.splits result.splits)
  from 1 2 show ?thesis by simp
qed

section \<open>The claims about the send queue\<close>

text \<open>
  Claim C8, as the code has it. The claim says that no size limit is enforced when
  \<^verbatim>\<open>maxPayload\<close> is 0. Both versions compare the length of the frame with the 0 they were
  given, so a socket with \<^verbatim>\<open>maxPayload\<close> 0 rejects every message, the empty one too.
\<close>

theorem maxPayload_zero_rejects:
  "this_maxPayload (new_BaseSocket Old own_codec None (Some 0)) = Some 0
   \<and> promises (snd (send (new_BaseSocket Old own_codec None (Some 0)) (ascii ''x'') (Array []) True False)) 0
       = Some (Rejected PayloadTooLarge)
   \<and> this_maxPayload (new_BaseSocket Canonical own_codec None (Some 0)) = Some 0
   \<and> promises (snd (send (new_BaseSocket Canonical own_codec None (Some 0)) (ascii ''x'') (Array []) True False)) 0
       = Some (Rejected PayloadTooLarge)"
  by (simp add: new_BaseSocket_def send_def send'_def make_sendingData_def exceeds_maxPayload_def
      serializeHeader_def serialize_def own_codec_def settle_def Let_def)

text \<open>
  Claim C8, amended: when \<^verbatim>\<open>maxPayload\<close> is set and the frame (header and body) is
  strictly longer than it, the promise of \<^verbatim>\<open>_send\<close> is rejected at once with
  PayloadTooLarge, before any call of \<^verbatim>\<open>_sendData\<close>, and the queue, the control objects and
  the calls of \<^verbatim>\<open>_sendData\<close> are as they were before the call. When \<^verbatim>\<open>maxPayload\<close> is
  unset, the old version enforces no limit (the message is queued) and the canonical version
  sets a limit of 100 MiB. A \<^verbatim>\<open>maxPayload\<close> of 0 is a limit as any other.
\<close>

theorem maxPayload_enforced:
  assumes "make_sendingData (version st) (lib st)
             (serializeHeader (version st) (lib st) i name a (double_of_nat (this_messageID st))) d
           = Inr frame"
  shows "(case send' st i p name a d of
            (k, st') \<Rightarrow>
              k = this_messageID st
              \<and> (this_maxPayload st = Some m \<and> m < length frame \<longrightarrow>
                 promises st' k = Some (Rejected PayloadTooLarge)
                 \<and> settled st' = settled st @ [(k, Rejected PayloadTooLarge)]
                 \<and> this_queue st' = this_queue st
                 \<and> controls st' = controls st
                 \<and> sendData_calls st' = sendData_calls st
                 \<and> inflight st' = inflight st)
              \<and> (version st = Old \<and> this_maxPayload st = None \<longrightarrow>
                   k \<in> set (this_queue st') \<and> promises st' k = Some Pending))
         \<and> this_maxPayload (new_BaseSocket Old lib' nd None) = None
         \<and> this_maxPayload (new_BaseSocket Canonical lib' nd None) = Some (1024 * 1024 * 100)"
proof -
  have 1: "exceeds_maxPayload (version st) (this_maxPayload st) (length frame)"
    if "this_maxPayload st = Some m" "m < length frame"
    using that by (cases "version st") (simp_all add: exceeds_maxPayload_def)
  have 2: "\<not> exceeds_maxPayload (version st) (this_maxPayload st) (length frame)"
    if "version st = Old" "this_maxPayload st = None"
    using that by (simp add: exceeds_maxPayload_def)
  obtain k st' where e: "send' st i p name a d = (k, st')"
    by (cases "send' st i p name a d")
  have k: "k = this_messageID st"
    using fst_send' [of st i p name a d] by (simp add: e)
  have a: "promises st' k = Some (Rejected PayloadTooLarge)
           \<and> settled st' = settled st @ [(k, Rejected PayloadTooLarge)]
           \<and> this_queue st' = this_queue st \<and> controls st' = controls st
           \<and> sendData_calls st' = sendData_calls st \<and> inflight st' = inflight st"
    if "this_maxPayload st = Some m" "m < length frame"
    using send'_too_large [OF assms 1 [OF that], of p] e k
    by (simp add: promises_settle settled_settle)
  have b: "k \<in> set (this_queue st') \<and> promises st' k = Some Pending"
    if "version st = Old" "this_maxPayload st = None"
    using send'_queued [OF assms 2 [OF that], of p] e k
    by (auto simp: Let_def queue_set_def)
  show ?thesis
    unfolding e using k a b by (simp add: new_BaseSocket_def)
qed

theorem maxPayload_enforced_witness:
  "promises (snd (send' (new_BaseSocket Old own_codec None (Some 10)) False False (ascii ''x'') True
                    (Array [String (ascii ''a very long string'')]))) 0
     = Some (Rejected PayloadTooLarge)
   \<and> this_queue (snd (send' (new_BaseSocket Old own_codec None (Some 10)) False False (ascii ''x'') True
                    (Array [String (ascii ''a very long string'')]))) = []
   \<and> 0 \<in> set (this_queue (snd (send' (new_BaseSocket Old own_codec None None) False False (ascii ''x'') True
                    (Array [String (ascii ''a very long string'')]))))"
proof -
  let ?d = "Array [String (ascii ''a very long string'')]"
  let ?st = "new_BaseSocket Old own_codec None (Some 10)"
  let ?st' = "new_BaseSocket Old own_codec None None"
  let ?frame = "serializeHeader Old own_codec False (ascii ''x'') True (double_of_nat 0)
                  @ serialize [String (ascii ''a very long string'')]"
  have f: "make_sendingData (version ?st) (lib ?st)
             (serializeHeader (version ?st) (lib ?st) False (ascii ''x'') True (double_of_nat (this_messageID ?st))) ?d
           = Inr ?frame"
    by (simp add: new_BaseSocket_def make_sendingData_def)
  have f': "make_sendingData (version ?st') (lib ?st')
             (serializeHeader (version ?st') (lib ?st') False (ascii ''x'') True (double_of_nat (this_messageID ?st'))) ?d
           = Inr ?frame"
    by (simp add: new_BaseSocket_def make_sendingData_def)
  have l: "10 < length ?frame"
    by (simp add: length_serializeHeader_Old serialize_def)
  have m: "this_maxPayload ?st = Some 10" "this_queue ?st = []" "this_messageID ?st = 0"
    "version ?st' = Old" "this_maxPayload ?st' = None" "this_messageID ?st' = 0"
    by (simp_all add: new_BaseSocket_def)
  obtain k1 s1 where e1: "send' ?st False False (ascii ''x'') True ?d = (k1, s1)"
    by (cases "send' ?st False False (ascii ''x'') True ?d")
  obtain k2 s2 where e2: "send' ?st' False False (ascii ''x'') True ?d = (k2, s2)"
    by (cases "send' ?st' False False (ascii ''x'') True ?d")
  from maxPayload_enforced [OF f, where p = False and m = 10 and lib' = own_codec and nd = None]
    maxPayload_enforced [OF f', where p = False and m = 10 and lib' = own_codec and nd = None] l m
  show ?thesis unfolding e1 e2 by auto
qed

text \<open>
  Claim C7: \<^verbatim>\<open>cancel(messageID, err)\<close> returns true exactly when the queue holds an entry
  with that id whose \<^verbatim>\<open>sent\<close> flag is false; it then removes the entry and rejects its
  promise with \<^verbatim>\<open>err\<close>, without any call of \<^verbatim>\<open>_sendData\<close>. Otherwise (the entry was
  sent, or the queue has no entry with that id) it returns false and changes nothing, so the
  settlement of the entry is left as it was to come.
\<close>

theorem cancel_iff_unsent:
  assumes "reachable st"
  shows "(case cancel st k (Some e) of
            (result, st') \<Rightarrow>
              (result \<longleftrightarrow> k \<in> set (this_queue st) \<and> \<not> sent_of st k)
              \<and> (result \<longrightarrow>
                    this_queue st' = removeAll k (this_queue st)
                    \<and> k \<notin> set (this_queue st')
                    \<and> promises st' k = Some (Rejected e)
                    \<and> settled st' = settled st @ [(k, Rejected e)]
                    \<and> sendData_calls st' = sendData_calls st)
              \<and> (\<not> result \<longrightarrow> st' = st))"
proof -
  have i: "queue_inv st" by (rule reachable_queue_inv [OF assms])
  show ?thesis
    using removed_queued [OF i, of k "Some e"]
    by (simp add: cancel_eq [OF i] removed_fields outcome_of_def)
qed

theorem cancel_iff_unsent_witness:
  "fst (cancel greeted_twice 1 (Some (UserError 7)))
   \<and> promises (snd (cancel greeted_twice 1 (Some (UserError 7)))) 1 = Some (Rejected (UserError 7))
   \<and> this_queue (snd (cancel greeted_twice 1 (Some (UserError 7)))) = [0]
   \<and> cancel greeted_twice 0 (Some (UserError 7)) = (False, greeted_twice)
   \<and> cancel greeted_twice 5 (Some (UserError 7)) = (False, greeted_twice)"
proof -
  obtain r1 s1 where 1: "cancel greeted_twice 1 (Some (UserError 7)) = (r1, s1)"
    by (cases "cancel greeted_twice 1 (Some (UserError 7))")
  obtain r0 s0 where 0: "cancel greeted_twice 0 (Some (UserError 7)) = (r0, s0)"
    by (cases "cancel greeted_twice 0 (Some (UserError 7))")
  obtain r5 s5 where 5: "cancel greeted_twice 5 (Some (UserError 7)) = (r5, s5)"
    by (cases "cancel greeted_twice 5 (Some (UserError 7))")
  from cancel_iff_unsent [OF reachable_greeted_twice, of 1 "UserError 7"]
    cancel_iff_unsent [OF reachable_greeted_twice, of 0 "UserError 7"]
    cancel_iff_unsent [OF reachable_greeted_twice, of 5 "UserError 7"]
  show ?thesis
    unfolding 1 0 5 by (auto simp: greeted_twice_queue)
qed

text \<open>
  Claim C10: \<^verbatim>\<open>cancel(messageID)\<close> with the error left out, on an entry of the queue whose
  \<^verbatim>\<open>sent\<close> flag is false, returns true, removes the entry and resolves its promise, though
  its frame was never handed to \<^verbatim>\<open>_sendData\<close>.
\<close>

theorem cancel_without_error_resolves:
  assumes "reachable st" "k \<in> set (this_queue st)" "\<not> sent_of st k"
  shows "(case cancel st k None of
            (result, st') \<Rightarrow>
              result
              \<and> this_queue st' = removeAll k (this_queue st)
              \<and> k \<notin> set (this_queue st')
              \<and> promises st' k = Some Resolved
              \<and> settled st' = settled st @ [(k, Resolved)]
              \<and> sendData_calls st' = sendData_calls st
              \<and> k \<notin> fst ` set (sendData_calls st'))"
proof -
  have i: "queue_inv st" by (rule reachable_queue_inv [OF assms(1)])
  then have "k \<notin> fst ` set (sendData_calls st)"
    using assms(3) by (simp add: queue_inv_def inv_wire_def)
  then show ?thesis
    using removed_queued [OF i assms(2), of None] assms(2,3)
    by (simp add: cancel_eq [OF i] removed_fields outcome_of_def)
qed

theorem cancel_without_error_resolves_witness:
  "1 \<in> set (this_queue greeted_twice) \<and> \<not> sent_of greeted_twice 1
   \<and> fst (cancel greeted_twice 1 None)
   \<and> promises (snd (cancel greeted_twice 1 None)) 1 = Some Resolved
   \<and> this_queue (snd (cancel greeted_twice 1 None)) = [0]"
proof -
  have q: "1 \<in> set (this_queue greeted_twice)" "\<not> sent_of greeted_twice 1"
    by (simp_all add: greeted_twice_queue)
  obtain r s where c: "cancel greeted_twice 1 None = (r, s)"
    by (cases "cancel greeted_twice 1 None")
  from cancel_without_error_resolves [OF reachable_greeted_twice q] q
  show ?thesis unfolding c by (auto simp: greeted_twice_queue)
qed

text \<open>
  Claim C3: when the connection closes with N entries in the queue, sent or not, the handler
  of \<^verbatim>\<open>close\<close> settles all N, each once, from the last inserted to the first, each rejected
  with the error of the aborted connection, and leaves the queue empty. \<^verbatim>\<open>cancel\<close> returns
  false exactly for the entries that were sent, which are then settled by \<^verbatim>\<open>ack\<close>; no frame
  is handed to \<^verbatim>\<open>_sendData\<close> and no \<^verbatim>\<open>sent\<close> flag changes on the way.
\<close>

theorem close_settles_all:
  assumes "reachable st"
  shows "this_queue (on_close st) = []
         \<and> settled (on_close st)
             = settled st @ map (\<lambda>k. (k, Rejected ConnectionAborted)) (rev (this_queue st))
         \<and> (\<forall>k. promises (on_close st) k
                  = (if k \<in> set (this_queue st) then Some (Rejected ConnectionAborted)
                     else promises st k))
         \<and> (\<forall>k. k \<in> set (this_queue st) \<longrightarrow>
                  promises st k = Some Pending
                  \<and> (fst (control_cancel st k (Some ConnectionAborted)) \<longleftrightarrow> \<not> sent_of st k))
         \<and> sendData_calls (on_close st) = sendData_calls st
         \<and> controls (on_close st) = controls st"
proof -
  have i: "queue_inv st" by (rule reachable_queue_inv [OF assms])
  have "\<forall>k. k \<in> set (this_queue st) \<longrightarrow>
          promises st k = Some Pending
          \<and> (fst (control_cancel st k (Some ConnectionAborted)) \<longleftrightarrow> \<not> sent_of st k)"
    using i by (auto simp: control_cancel_eq queue_inv_def inv_queue_def)
  with close_loop_rev [OF i refl] show ?thesis
    by (simp add: on_close_def)
qed

theorem close_settles_all_witness:
  "this_queue (on_close greeted_twice) = []
   \<and> settled (on_close greeted_twice)
       = [(1, Rejected ConnectionAborted), (0, Rejected ConnectionAborted)]
   \<and> promises (on_close greeted_twice) 0 = Some (Rejected ConnectionAborted)
   \<and> promises (on_close greeted_twice) 1 = Some (Rejected ConnectionAborted)
   \<and> \<not> fst (control_cancel greeted_twice 0 (Some ConnectionAborted))
   \<and> fst (control_cancel greeted_twice 1 (Some ConnectionAborted))"
  using close_settles_all [OF reachable_greeted_twice]
  by (simp add: greeted_twice_queue)

text \<open>
  Claim C5: in every reachable state the pending promises are those of the entries of the
  queue, and an entry of the queue whose \<^verbatim>\<open>sent\<close> flag is true is the head of the queue or
  was sent with \<^verbatim>\<open>prior\<close>; so where no entry of the queue was sent with \<^verbatim>\<open>prior\<close>, the
  head is the one entry that is sent and unsettled. Settling an entry of the queue
  (\<^verbatim>\<open>control.ack\<close>) removes it from the queue and settles its promise once, a later call for
  the same entry changes nothing, and when the entry was the head and the queue is not empty
  afterwards, \<^verbatim>\<open>send\<close> is called on the new head; when it was not the head, nothing is
  transmitted.
\<close>

theorem single_flight:
  assumes "reachable st"
  shows "(\<forall>k. promises st k = Some Pending \<longleftrightarrow> k \<in> set (this_queue st))
         \<and> (\<forall>k. k \<in> set (this_queue st) \<and> sent_of st k \<longrightarrow>
                  k = hd (this_queue st) \<or> prior_of st k)
         \<and> ((\<forall>k. k \<in> set (this_queue st) \<longrightarrow> \<not> prior_of st k) \<longrightarrow>
                filter (sent_of st) (this_queue st) = take 1 (this_queue st))
         \<and> (k \<in> set (this_queue st) \<longrightarrow>
                this_queue (control_ack st k err) = removeAll k (this_queue st)
                \<and> k \<notin> set (this_queue (control_ack st k err))
                \<and> promises (control_ack st k err) = (promises st)(k \<mapsto> outcome_of err)
                \<and> settled (control_ack st k err) = settled st @ [(k, outcome_of err)]
                \<and> control_ack (control_ack st k err) k err' = control_ack st k err
                \<and> (hd (this_queue st) = k \<and> tl (this_queue st) \<noteq> [] \<longrightarrow>
                      hd (this_queue (control_ack st k err)) = hd (tl (this_queue st))
                      \<and> control_ack st k err
                          = control_send (removed st k err) (hd (tl (this_queue st)))
                      \<and> sent_of (control_ack st k err) (hd (tl (this_queue st))))
                \<and> (hd (this_queue st) \<noteq> k \<longrightarrow>
                      sendData_calls (control_ack st k err) = sendData_calls st
                      \<and> sent_of (control_ack st k err) = sent_of st))"
proof -
  have i: "queue_inv st" by (rule reachable_queue_inv [OF assms])
  then have iq: "inv_queue st" and fl: "inv_flight st" by (simp_all add: queue_inv_def)
  have 1: "\<forall>k. promises st k = Some Pending \<longleftrightarrow> k \<in> set (this_queue st)"
    using iq by (simp add: inv_queue_def)
  have 2: "\<forall>k. k \<in> set (this_queue st) \<and> sent_of st k \<longrightarrow>
                  k = hd (this_queue st) \<or> prior_of st k"
    using fl by (simp add: inv_flight_def)
  have 3: "filter (sent_of st) (this_queue st) = take 1 (this_queue st)"
    if np: "\<forall>k. k \<in> set (this_queue st) \<longrightarrow> \<not> prior_of st k"
  proof (cases "this_queue st")
    case Nil
    then show ?thesis by simp
  next
    case (Cons x xs)
    with fl have x: "sent_of st x" by (simp add: inv_flight_def)
    from iq Cons have "x \<notin> set xs" by (simp add: inv_queue_def)
    with 2 np Cons have "\<forall>y \<in> set xs. \<not> sent_of st y" by auto
    then have "filter (sent_of st) xs = []" by (simp add: filter_empty_conv)
    with x Cons show ?thesis by simp
  qed
  have 4: "hd (this_queue (control_ack st k err)) = hd (tl (this_queue st))
           \<and> control_ack st k err = control_send (removed st k err) (hd (tl (this_queue st)))
           \<and> sent_of (control_ack st k err) (hd (tl (this_queue st)))"
    if k: "k \<in> set (this_queue st)" and h: "hd (this_queue st) = k" "tl (this_queue st) \<noteq> []"
  proof -
    from k have ne: "this_queue st \<noteq> []" by auto
    note e = control_ack_head [OF i ne h, of err]
    from iq have d: "distinct (this_queue st)" by (simp add: inv_queue_def)
    from ne d h have t: "removeAll k (this_queue st) = tl (this_queue st)"
      using removeAll_hd [of "this_queue st"] by auto
    from ne h(2) d have "hd (tl (this_queue st)) \<in> set (this_queue st)"
      using tl_in_queue [of "this_queue st"] by auto
    with iq have "controls st (hd (tl (this_queue st))) \<noteq> None" by (simp add: inv_queue_def)
    then show ?thesis
      using e by (simp add: sent_of_control_send removed_fields t)
  qed
  have 5: "sendData_calls (control_ack st k err) = sendData_calls st
           \<and> sent_of (control_ack st k err) = sent_of st"
    if "hd (this_queue st) \<noteq> k"
    using unsent_by_control_ack [of st k err] that iq by (simp add: inv_queue_def)
  show ?thesis
    using 1 2 3 4 5 control_ack_queued [OF i, of k err] control_ack_twice [OF i, of k err err']
    by blast
qed

theorem single_flight_witness:
  "filter (sent_of greeted_twice) (this_queue greeted_twice) = [0]
   \<and> this_queue (control_ack greeted_twice 0 None) = [1]
   \<and> promises (control_ack greeted_twice 0 None) 0 = Some Resolved
   \<and> sent_of (control_ack greeted_twice 0 None) 1
   \<and> control_ack (control_ack greeted_twice 0 None) 0 (Some ConnectionAborted)
       = control_ack greeted_twice 0 None"
proof -
  let ?st = greeted_twice
  have p: "\<forall>k. k \<in> set (this_queue ?st) \<longrightarrow> \<not> prior_of ?st k"
    by (simp add: greeted_twice_def greeted_def send_def send'_def new_BaseSocket_def
      make_sendingData_def exceeds_maxPayload_def queue_set_def control_send_def prior_of_def
      Let_def)
  have q: "0 \<in> set (this_queue ?st)" "hd (this_queue ?st) = 0" "tl (this_queue ?st) \<noteq> []"
    by (simp_all add: greeted_twice_queue)
  have w: "filter (sent_of ?st) (this_queue ?st) = take 1 (this_queue ?st)
           \<and> this_queue (control_ack ?st 0 None) = removeAll 0 (this_queue ?st)
           \<and> promises (control_ack ?st 0 None) = (promises ?st)(0 \<mapsto> outcome_of None)
           \<and> sent_of (control_ack ?st 0 None) (hd (tl (this_queue ?st)))
           \<and> control_ack (control_ack ?st 0 None) 0 (Some ConnectionAborted)
               = control_ack ?st 0 None"
    using single_flight [OF reachable_greeted_twice, of 0 None "Some ConnectionAborted"] p q
    by blast
  then show ?thesis
    by (simp add: greeted_twice_queue outcome_of_def)
qed

text \<open>
  Claim C6: a call of \<^verbatim>\<open>_send\<close> that builds its frame within the size limit appends the
  entry to the queue, and \<^verbatim>\<open>control.send\<close> runs in the same call (the \<^verbatim>\<open>sent\<close> flag is
  true on return and the frame has been handed to \<^verbatim>\<open>_sendData\<close>) if and only if
  \<^verbatim>\<open>prior\<close> is true or the queue was empty; otherwise the entry is queued with \<^verbatim>\<open>sent\<close>
  false and nothing is transmitted. An entry that waits in the queue is sent by no action
  but one that settles the head before it and makes the entry the head.
\<close>

theorem transmit_decision:
  assumes "reachable st"
  shows "(make_sendingData (version st) (lib st)
            (serializeHeader (version st) (lib st) i name a (double_of_nat (this_messageID st))) d
          = Inr frame
          \<and> \<not> exceeds_maxPayload (version st) (this_maxPayload st) (length frame) \<longrightarrow>
            (case send' st i p name a d of
               (m, st') \<Rightarrow>
                 this_queue st' = this_queue st @ [m]
                 \<and> promises st' m = Some Pending
                 \<and> (sent_of st' m \<longleftrightarrow> p \<or> this_queue st = [])
                 \<and> sendData_calls st'
                     = (if p \<or> this_queue st = [] then sendData_calls st @ [(m, frame)]
                        else sendData_calls st)))
         \<and> (k \<in> set (this_queue st) \<and> \<not> sent_of st k \<and> fire st act = Some st'' \<and> sent_of st'' k
              \<longrightarrow> sent_as_head st st'' k)"
proof -
  have i: "queue_inv st" by (rule reachable_queue_inv [OF assms])
  obtain m st' where e: "send' st i p name a d = (m, st')"
    by (cases "send' st i p name a d")
  have m: "m = this_messageID st" using fst_send' [of st i p name a d] by (simp add: e)
  have s: "st' = snd (send' st i p name a d)" by (simp add: e)
  have a: "this_queue st' = this_queue st @ [m] \<and> promises st' m = Some Pending
           \<and> (sent_of st' m \<longleftrightarrow> p \<or> this_queue st = [])
           \<and> sendData_calls st'
               = (if p \<or> this_queue st = [] then sendData_calls st @ [(m, frame)]
                  else sendData_calls st)"
    if h: "make_sendingData (version st) (lib st)
             (serializeHeader (version st) (lib st) i name a (double_of_nat (this_messageID st))) d
           = Inr frame"
      "\<not> exceeds_maxPayload (version st) (this_maxPayload st) (length frame)"
    using send'_accepted(1,3,4) [OF i h, where p = p]
      send'_accepted(2) [OF i h, where p = p and k = m] by (simp add: m s)
  have b: "sent_as_head st st'' k"
    if "k \<in> set (this_queue st)" "\<not> sent_of st k" "fire st act = Some st''" "sent_of st'' k"
    using waits_until_head [OF i that] .
  show ?thesis
    unfolding e using a b by simp
qed

theorem transmit_decision_witness:
  "sent_of greeted 0
   \<and> this_queue greeted_twice = [0, 1]
   \<and> \<not> sent_of greeted_twice 1
   \<and> sendData_calls greeted_twice = sendData_calls greeted
   \<and> sent_of (sendData_settled greeted_twice 0 (Some (WriteFailed 0))) 1
   \<and> sent_as_head greeted_twice (sendData_settled greeted_twice 0 (Some (WriteFailed 0))) 1"
proof -
  let ?new = "new_BaseSocket Old own_codec None None"
  let ?d1 = "Array [String (ascii ''hi''), Number (double_of_nat 42), Boolean True]"
  let ?f1 = "serializeHeader Old own_codec False (ascii ''greet'') True (double_of_nat 0)
               @ serialize [String (ascii ''hi''), Number (double_of_nat 42), Boolean True]"
  let ?f2 = "serializeHeader Old own_codec False (ascii ''second'') True (double_of_nat 1) @ serialize []"
  have n: "version ?new = Old" "lib ?new = own_codec" "this_messageID ?new = 0"
    "this_maxPayload ?new = None" "this_queue ?new = []"
    by (simp_all add: new_BaseSocket_def)
  have g: "version greeted = Old" "lib greeted = own_codec" "this_maxPayload greeted = None"
    by (simp_all add: greeted_def send_def send'_def new_BaseSocket_def make_sendingData_def
        exceeds_maxPayload_def queue_set_def control_send_def Let_def)
  have h1: "make_sendingData (version ?new) (lib ?new)
              (serializeHeader (version ?new) (lib ?new) False (ascii ''greet'') True
                 (double_of_nat (this_messageID ?new))) ?d1 = Inr ?f1
            \<and> \<not> exceeds_maxPayload (version ?new) (this_maxPayload ?new) (length ?f1)"
    by (simp add: n make_sendingData_def exceeds_maxPayload_def)
  have h2: "make_sendingData (version greeted) (lib greeted)
              (serializeHeader (version greeted) (lib greeted) False (ascii ''second'') True
                 (double_of_nat (this_messageID greeted))) (Array []) = Inr ?f2
            \<and> \<not> exceeds_maxPayload (version greeted) (this_maxPayload greeted) (length ?f2)"
    by (simp add: g greeted_queue make_sendingData_def exceeds_maxPayload_def)
  obtain m1 s1 where e1: "send' ?new False False (ascii ''greet'') True ?d1 = (m1, s1)"
    by (cases "send' ?new False False (ascii ''greet'') True ?d1")
  then have s1: "greeted = s1" by (simp add: greeted_def send_def)
  obtain m2 s2 where e2: "send' greeted False False (ascii ''second'') True (Array []) = (m2, s2)"
    by (cases "send' greeted False False (ascii ''second'') True (Array [])")
  then have s2: "greeted_twice = s2" by (simp add: greeted_twice_def send_def)
  have m1: "m1 = 0" using fst_send' [of ?new False False "ascii ''greet''" True ?d1]
    by (simp add: e1 n)
  have m2: "m2 = 1" using fst_send' [of greeted False False "ascii ''second''" True "Array []"]
    by (simp add: e2 greeted_queue)
  have a1: "sent_of s1 m1"
    using transmit_decision [OF reachable.init, of Old own_codec None None False "ascii ''greet''" True
        ?d1 ?f1 False] h1
    unfolding e1 by (simp add: n)
  have a2: "this_queue s2 = this_queue greeted @ [m2] \<and> \<not> sent_of s2 m2
            \<and> sendData_calls s2 = sendData_calls greeted"
    using transmit_decision [OF reachable_greeted, of False "ascii ''second''" True "Array []" ?f2 False] h2
    unfolding e2 by (simp add: greeted_queue)
  have b: "sent_as_head greeted_twice (sendData_settled greeted_twice 0 (Some (WriteFailed 0))) 1"
    using transmit_decision [OF reachable_greeted_twice,
        where k = 1 and act = "SendDataSettled 0 (Some (WriteFailed 0))"
          and st'' = "sendData_settled greeted_twice 0 (Some (WriteFailed 0))"]
    by (simp add: greeted_twice_queue greeted_twice_write_failed)
  from a1 a2 b show ?thesis
    by (simp add: s1 [symmetric] s2 [symmetric] m1 m2 greeted_queue greeted_twice_write_failed)
qed

text \<open>
  Claim C4: when a frame arrives whose decoded header is internal and named \<^verbatim>\<open>ack\<close> and
  whose decoded body starts with the number \<open>m\<close>, then, if the queue holds an entry with
  id \<open>m\<close>, the promise of that entry is resolved and the entry leaves the queue, and every
  other pending promise stays pending and in the queue; if the queue holds no entry with id
  \<open>m\<close>, the frame changes nothing and no error is emitted (for a frame that does not itself
  ask for an acknowledgement, the socket is as it was).
\<close>

theorem ack_resolves_exactly:
  assumes "reachable st"
    and "deserializeHeader (version st) (lib st) frame = Some (Ok h)"
    and "truthy (isInternal h)" "messageName h = String (ascii ''ack'')"
    and "deserialize_body (version st) (lib st) (slice_from frame (headerLength h))
         = Some (Ok body')"
    and "nth_or_undefined body' 0 = Number x" "to_index x = Some m"
  shows "(case receiveData st frame of
            None \<Rightarrow> False
          | Some st' \<Rightarrow>
              (m \<in> set (this_queue st) \<longrightarrow>
                 promises st m = Some Pending
                 \<and> promises st' m = Some Resolved
                 \<and> m \<notin> set (this_queue st')
                 \<and> settled st' = settled (replied st h) @ [(m, Resolved)])
              \<and> (\<forall>j. j \<noteq> m \<and> promises st j = Some Pending \<longrightarrow>
                       promises st' j = Some Pending \<and> j \<in> set (this_queue st'))
              \<and> (m \<notin> set (this_queue st) \<and> \<not> truthy (needACK h) \<longrightarrow> st' = st))"
proof -
  have i: "queue_inv st" by (rule reachable_queue_inv [OF assms(1)])
  let ?st1 = "replied st h"
  have i1: "queue_inv ?st1" by (rule queue_inv_replied [OF i])
  note e = receiveData_ack [OF assms(2-7)]
  have a: "promises st m = Some Pending \<and> m \<in> set (this_queue ?st1)"
    if "m \<in> set (this_queue st)"
    using that i replied_pending [OF i, of m h] by (simp add: queue_inv_def inv_queue_def)
  have b: "promises (control_ack ?st1 m None) = (promises ?st1)(m \<mapsto> Resolved)
           \<and> m \<notin> set (this_queue (control_ack ?st1 m None))
           \<and> settled (control_ack ?st1 m None) = settled ?st1 @ [(m, Resolved)]
           \<and> this_queue (control_ack ?st1 m None) = removeAll m (this_queue ?st1)"
    if "m \<in> set (this_queue ?st1)"
    using control_ack_queued [OF i1 that, of None] by (simp add: outcome_of_def)
  have c: "promises ?st1 j = Some Pending \<and> j \<in> set (this_queue ?st1)"
    if "promises st j = Some Pending" for j
    using replied_pending [OF i that, of h] by simp
  show ?thesis
  proof (cases "m \<in> set (this_queue ?st1)")
    case True
    then have r: "receiveData st frame = Some (control_ack ?st1 m None)" by (simp add: e)
    show ?thesis
      unfolding r using a b [OF True] c True
        replied_unchanged [of h st]
      by auto
  next
    case False
    then have r: "receiveData st frame = Some ?st1" by (simp add: e)
    show ?thesis
      unfolding r using a c False replied_unchanged [of h st] by auto
  qed
qed

theorem ack_resolves_exactly_witness:
  "(case receiveData greeted (ack_frame 0) of
      None \<Rightarrow> False
    | Some st' \<Rightarrow> promises st' 0 = Some Resolved \<and> 0 \<notin> set (this_queue st'))
   \<and> receiveData greeted (ack_frame 5) = Some greeted"
proof -
  let ?h = "\<lparr>isInternal = Boolean True, messageName = String (ascii ''ack''), needACK = Boolean False,
             messageID = Number (double_of_nat 7), headerLength = double_of_nat 29\<rparr>"
  have h: "truthy (isInternal ?h)" "messageName ?h = String (ascii ''ack'')" "\<not> truthy (needACK ?h)"
    "headerLength ?h = double_of_nat 29"
    by simp_all
  have n: "nth_or_undefined [Number (double_of_nat m)] 0 = Number (double_of_nat m)" for m
    by (simp add: nth_or_undefined_def)
  have 0: "(0::nat) < 2 ^ 53" and 5: "(5::nat) < 2 ^ 53" by simp_all
  note d0 = ack_frame_decoded [OF 0] and d5 = ack_frame_decoded [OF 5]
  have a: "case receiveData greeted (ack_frame 0) of
             None \<Rightarrow> False
           | Some st' \<Rightarrow> promises st' 0 = Some Resolved \<and> 0 \<notin> set (this_queue st')"
    using ack_resolves_exactly [OF reachable_greeted, of "ack_frame 0" ?h
        "[Number (double_of_nat 0)]" "double_of_nat 0" 0]
    by (simp add: greeted_version d0 n greeted_queue split: option.splits)
  have b: "receiveData greeted (ack_frame 5) = Some greeted"
    using ack_resolves_exactly [OF reachable_greeted, of "ack_frame 5" ?h
        "[Number (double_of_nat 5)]" "double_of_nat 5" 5]
    by (simp add: greeted_version d5 n greeted_queue split: option.splits)
  from a b show ?thesis by simp
qed

end
